theory Spec2Isabelle
  imports Main "HOL-Library.AList" "HOL-Library.Word"
begin

section \<open>The dynamic JSON value engine of package jsonx\<close>

text \<open>
  The engine wraps a Go \<^verbatim>\<open>interface{}\<close> in a handle
  \<^verbatim>\<open>type JSON struct { data interface{}; err error }\<close>.
  The payload is a scalar, a \<^verbatim>\<open>map[string]interface{}\<close> or a
  \<^verbatim>\<open>[]interface{}\<close>. A Go map is a reference to a mutable table and a slice is a
  header (pointer, length) over a backing array whose size is the capacity, so the
  containers live in an explicit store and payloads refer to them by address.
\<close>

subsection \<open>Values, store and handles\<close>

type_synonym addr = nat

text \<open>A float64 is kept as its IEEE-754 bit pattern.\<close>

type_synonym float64 = "64 word"

datatype val =
    VNil
  | VBool bool
  | VInt int
  | VInt64 int
  | VFloat float64
  | VStr string
  | VMap addr
  | VSlice addr nat

text \<open>
  A store cell is a map table or a backing array. A table is an association list with
  distinct keys; \<^verbatim>\<open>range\<close> visits it in list order. Go leaves that order
  unspecified: statements about every store cover every order.
  The capacity of a slice \<open>VSlice a n\<close> is the length of the backing array at \<open>a\<close>.
\<close>

datatype cell = CMap "(string \<times> val) list" | CArr "val list"

type_synonym heap = "cell list"

definition mapAt :: "heap \<Rightarrow> addr \<Rightarrow> (string \<times> val) list" where
  "mapAt h a = (if a < length h then (case h ! a of CMap m \<Rightarrow> m | CArr _ \<Rightarrow> []) else [])"

definition arrAt :: "heap \<Rightarrow> addr \<Rightarrow> val list" where
  "arrAt h a = (if a < length h then (case h ! a of CArr xs \<Rightarrow> xs | CMap _ \<Rightarrow> []) else [])"

text \<open>\<^verbatim>\<open>obj[k] = v\<close>, \<^verbatim>\<open>delete(obj, k)\<close> and \<^verbatim>\<open>arr[i] = v\<close>.\<close>

definition mapStore :: "heap \<Rightarrow> addr \<Rightarrow> string \<Rightarrow> val \<Rightarrow> heap" where
  "mapStore h a k v = h[a := CMap (AList.update k v (mapAt h a))]"

definition mapDelete :: "heap \<Rightarrow> addr \<Rightarrow> string \<Rightarrow> heap" where
  "mapDelete h a k = h[a := CMap (AList.delete k (mapAt h a))]"

definition arrStore :: "heap \<Rightarrow> addr \<Rightarrow> nat \<Rightarrow> val \<Rightarrow> heap" where
  "arrStore h a i v = h[a := CArr ((arrAt h a)[i := v])]"

text \<open>\<^verbatim>\<open>make(map[string]interface{})\<close> and \<^verbatim>\<open>make([]interface{}, n)\<close> for \<open>0 \<le> n\<close>.\<close>

definition newMap :: "heap \<Rightarrow> heap \<times> val" where
  "newMap h = (h @ [CMap []], VMap (length h))"

definition newSlice :: "heap \<Rightarrow> nat \<Rightarrow> heap \<times> val" where
  "newSlice h n = (h @ [CArr (replicate n VNil)], VSlice (length h) n)"

text \<open>
  \<^verbatim>\<open>append(arr, x)\<close> on the slice \<open>(a, n)\<close>: within capacity the element is written
  into the backing array in place; otherwise a larger array is allocated and the \<open>n\<close>
  elements are copied. The new capacity is the Go runtime's choice; it is the parameter
  \<open>g\<close> (old capacity, needed length), and never less than the needed length.
\<close>

type_synonym growth = "nat \<Rightarrow> nat \<Rightarrow> nat"

definition appendOne :: "growth \<Rightarrow> heap \<Rightarrow> addr \<Rightarrow> nat \<Rightarrow> val \<Rightarrow> heap \<times> addr" where
  "appendOne g h a n x =
     (let old = arrAt h a in
      if n < length old then (h[a := CArr (old[n := x])], a)
      else (h @ [CArr (take n old @ x # replicate (max (Suc n) (g (length old) (Suc n)) - Suc n) VNil)],
            length h))"

text \<open>\<^verbatim>\<open>append(arr, values...)\<close>.\<close>

definition appendAll :: "growth \<Rightarrow> heap \<Rightarrow> addr \<Rightarrow> nat \<Rightarrow> val list \<Rightarrow> heap \<times> val" where
  "appendAll g h a n vs =
     (let old = arrAt h a; m = n + length vs in
      if m \<le> length old then (h[a := CArr (take n old @ vs @ drop m old)], VSlice a m)
      else (h @ [CArr (take n old @ vs @ replicate (max m (g (length old) m) - m) VNil)],
            VSlice (length h) m))"

datatype error =
    ArrayIndexOutOfRange int
  | PathNotFound string
  | PropertyOnNonObject string
  | EmptyPathParts
  | InvalidArrayIndex int
  | SetIndexOnNonArray
  | SetPropertyOnNonObject
  | AccessIndexOnNonArray
  | AccessPropertyOnNonObject
  | DeleteFromNonObject
  | NotAnArray
  | IndexOutOfRange
  | BothValuesMustBeObjects
  | NotAnObject
  | ForeignError string

record JSON =
  data :: val
  err :: "error option"

text \<open>A call either returns or panics (\<^verbatim>\<open>makeslice: len out of range\<close>).\<close>

datatype 'a outcome = Panic | Return 'a

subsection \<open>strings.Split on the dot, strconv.Atoi, strconv.Itoa\<close>

fun splitDot :: "string \<Rightarrow> string list" where
  "splitDot [] = [[]]"
| "splitDot (c # cs) =
     (if c = CHR ''.'' then [] # splitDot cs
      else (case splitDot cs of [] \<Rightarrow> [[c]] | p # ps \<Rightarrow> (c # p) # ps))"

definition digitVal :: "char \<Rightarrow> nat option" where
  "digitVal c = (let k = of_char c :: nat in if 48 \<le> k \<and> k \<le> 57 then Some (k - 48) else None)"

fun digits :: "nat \<Rightarrow> string \<Rightarrow> nat option" where
  "digits acc [] = Some acc"
| "digits acc (c # cs) = (case digitVal c of None \<Rightarrow> None | Some d \<Rightarrow> digits (acc * 10 + d) cs)"

text \<open>
  \<^verbatim>\<open>strconv.Atoi\<close> for a 64-bit \<^verbatim>\<open>int\<close>: an optional sign, then one or more decimal
  digits, and the value must fit in 64 bits; anything else is an error.
\<close>

definition Atoi :: "string \<Rightarrow> int option" where
  "Atoi s =
     (case s of
        [] \<Rightarrow> None
      | c # r \<Rightarrow>
          (let neg = (c = CHR ''-'');
               ds = (if c = CHR ''-'' \<or> c = CHR ''+'' then r else s)
           in if ds = [] then None
              else (case digits 0 ds of
                      None \<Rightarrow> None
                    | Some n \<Rightarrow>
                        (let v = (if neg then - int n else int n)
                         in if - (2 ^ 63) \<le> v \<and> v < 2 ^ 63 then Some v else None))))"

definition digitChar :: "nat \<Rightarrow> char" where
  "digitChar d = char_of (48 + d)"

fun Itoa :: "nat \<Rightarrow> string" where
  "Itoa n = (if n < 10 then [digitChar n] else Itoa (n div 10) @ [digitChar (n mod 10)])"

declare Itoa.simps [simp del]

text \<open>64-bit two's complement wrap-around of \<^verbatim>\<open>idx+1\<close>.\<close>

definition wrap64 :: "int \<Rightarrow> int" where
  "wrap64 x = (x + 2 ^ 63) mod 2 ^ 64 - 2 ^ 63"

text \<open>\<^verbatim>\<open>make([]interface{}, n)\<close> with a signed length: a negative length panics.\<close>

definition makeSlice :: "heap \<Rightarrow> int \<Rightarrow> (heap \<times> val) outcome" where
  "makeSlice h n = (if n < 0 then Panic else Return (newSlice h (nat n)))"

subsection \<open>getByPath\<close>

fun getParts :: "heap \<Rightarrow> string \<Rightarrow> val \<Rightarrow> string list \<Rightarrow> error + val" where
  "getParts h path current [] = Inr current"
| "getParts h path current (part # rest) =
     (case (Atoi part, current) of
        (Some idx, VSlice a n) \<Rightarrow>
          (if idx < 0 \<or> idx \<ge> int n then Inl (ArrayIndexOutOfRange idx)
           else getParts h path (arrAt h a ! nat idx) rest)
      | (_, VMap a) \<Rightarrow>
          (case map_of (mapAt h a) part of
             Some v \<Rightarrow> getParts h path v rest
           | None \<Rightarrow> Inl (PathNotFound path))
      | (_, _) \<Rightarrow> Inl (PropertyOnNonObject part))"

definition getByPath :: "heap \<Rightarrow> JSON \<Rightarrow> string \<Rightarrow> error + val" where
  "getByPath h j path = (if path = [] then Inr (data j) else getParts h path (data j) (splitDot path))"


definition Get :: "heap \<Rightarrow> JSON \<Rightarrow> string \<Rightarrow> JSON" where
  "Get h j path =
     (if err j \<noteq> None then j
      else (case getByPath h j path of
              Inl e \<Rightarrow> \<lparr>data = VNil, err = Some e\<rparr>
            | Inr v \<Rightarrow> \<lparr>data = v, err = None\<rparr>))"

definition Has :: "heap \<Rightarrow> JSON \<Rightarrow> string \<Rightarrow> bool" where
  "Has h j path =
     (if err j \<noteq> None then False
      else (case getByPath h j path of Inl e \<Rightarrow> False | Inr v \<Rightarrow> True))"

subsection \<open>setByPath, setByPathRecursive, updateDataReference\<close>

text \<open>The loop \<^verbatim>\<open>for len(arr) <= idx { arr = append(arr, nil) }\<close> on the slice \<open>(a, n)\<close>.\<close>

function growTo :: "growth \<Rightarrow> heap \<Rightarrow> addr \<Rightarrow> nat \<Rightarrow> nat \<Rightarrow> heap \<times> addr \<times> nat" where
  "growTo g h a n idx =
     (if n \<le> idx then growTo g (fst (appendOne g h a n VNil)) (snd (appendOne g h a n VNil)) (Suc n) idx
      else (h, a, n))"
  by pat_completeness auto
termination
  by (relation "measure (\<lambda>(g, h, a, n, idx). Suc idx - n)") auto

declare growTo.simps [simp del]

text \<open>
  One step of the descent in \<^verbatim>\<open>updateDataReference\<close>: a numeric segment moves into an
  array when the index is in range, any other segment moves into a map
  (a missing key reads as nil); otherwise \<^verbatim>\<open>current\<close> stays where it is.
\<close>

definition stepRef :: "heap \<Rightarrow> val \<Rightarrow> string \<Rightarrow> val" where
  "stepRef h current part =
     (case Atoi part of
        Some idx \<Rightarrow>
          (case current of
             VSlice a n \<Rightarrow> if 0 \<le> idx \<and> idx < int n then arrAt h a ! nat idx else current
           | _ \<Rightarrow> current)
      | None \<Rightarrow>
          (case current of
             VMap a \<Rightarrow> (case map_of (mapAt h a) part of Some v \<Rightarrow> v | None \<Rightarrow> VNil)
           | _ \<Rightarrow> current))"

fun walkRef :: "heap \<Rightarrow> val \<Rightarrow> string list \<Rightarrow> val \<Rightarrow> heap" where
  "walkRef h current [] newRef = h"
| "walkRef h current [part] newRef =
     (case current of VMap a \<Rightarrow> mapStore h a part newRef | _ \<Rightarrow> h)"
| "walkRef h current (part # rest) newRef = walkRef h (stepRef h current part) rest newRef"

definition updateDataReference :: "heap \<Rightarrow> JSON \<Rightarrow> val \<Rightarrow> val \<Rightarrow> string \<Rightarrow> heap \<times> JSON" where
  "updateDataReference h j oldRef newRef path =
     (if path = [] then (h, j\<lparr>data := newRef\<rparr>)
      else (walkRef h (data j) (splitDot path) newRef, j))"

text \<open>\<^verbatim>\<open>nextPath := currentPath; if nextPath != "" { nextPath += "." }; nextPath += part\<close>\<close>

definition nextPath :: "string \<Rightarrow> string \<Rightarrow> string" where
  "nextPath currentPath part = (if currentPath \<noteq> [] then currentPath @ ''.'' @ part else part)"

text \<open>
  The container created in an empty array slot: \<^verbatim>\<open>make([]interface{}, nextIdx+1)\<close>
  when the next segment is numeric, a new map otherwise.
\<close>

definition slotContainer :: "heap \<Rightarrow> string \<Rightarrow> (heap \<times> val) outcome" where
  "slotContainer h nextPart =
     (case Atoi nextPart of
        Some nextIdx \<Rightarrow> makeSlice h (wrap64 (nextIdx + 1))
      | None \<Rightarrow> Return (newMap h))"

text \<open>
  The container created under a missing key: \<^verbatim>\<open>make([]interface{}, 0)\<close> when the next
  segment is numeric, a new map otherwise.
\<close>

definition keyContainer :: "heap \<Rightarrow> string \<Rightarrow> heap \<times> val" where
  "keyContainer h nextPart =
     (case Atoi nextPart of Some nextIdx \<Rightarrow> newSlice h 0 | None \<Rightarrow> newMap h)"

text \<open>
  The result is the store, the receiver \<open>j\<close> (whose \<open>data\<close> field
  \<^verbatim>\<open>updateDataReference\<close> may replace) and the returned error.
\<close>

fun setByPathRecursive ::
  "growth \<Rightarrow> heap \<Rightarrow> JSON \<Rightarrow> val \<Rightarrow> string list \<Rightarrow> val \<Rightarrow> string \<Rightarrow> (heap \<times> JSON \<times> error option) outcome"
where
  "setByPathRecursive g h j current [] v currentPath = Return (h, j, Some EmptyPathParts)"
| "setByPathRecursive g h j current [part] v currentPath =
     (case Atoi part of
        Some idx \<Rightarrow>
          (case current of
             VSlice a n \<Rightarrow>
               if idx < 0 \<or> idx \<ge> 10000 then Return (h, j, Some (InvalidArrayIndex idx))
               else (case growTo g h a n (nat idx) of
                       (h1, a1, n1) \<Rightarrow>
                         (case updateDataReference (arrStore h1 a1 (nat idx) v) j current (VSlice a1 n1) currentPath of
                            (h3, j3) \<Rightarrow> Return (h3, j3, None)))
           | _ \<Rightarrow> Return (h, j, Some SetIndexOnNonArray))
      | None \<Rightarrow>
          (case current of
             VMap a \<Rightarrow> Return (mapStore h a part v, j, None)
           | _ \<Rightarrow> Return (h, j, Some SetPropertyOnNonObject)))"
| "setByPathRecursive g h j current (part # nextPart # rest) v currentPath =
     (case Atoi part of
        Some idx \<Rightarrow>
          (case current of
             VSlice a n \<Rightarrow>
               if idx < 0 \<or> idx \<ge> 10000 then Return (h, j, Some (InvalidArrayIndex idx))
               else (case growTo g h a n (nat idx) of
                       (h1, a1, n1) \<Rightarrow>
                         (case (if arrAt h1 a1 ! nat idx = VNil
                                then (case slotContainer h1 nextPart of
                                        Panic \<Rightarrow> Panic
                                      | Return (h', c) \<Rightarrow> Return (arrStore h' a1 (nat idx) c))
                                else Return h1) of
                            Panic \<Rightarrow> Panic
                          | Return h2 \<Rightarrow>
                              (case updateDataReference h2 j current (VSlice a1 n1) currentPath of
                                 (h3, j3) \<Rightarrow>
                                   setByPathRecursive g h3 j3 (arrAt h2 a1 ! nat idx) (nextPart # rest) v
                                     (nextPath currentPath part))))
           | _ \<Rightarrow> Return (h, j, Some AccessIndexOnNonArray))
      | None \<Rightarrow>
          (case current of
             VMap a \<Rightarrow>
               (case (if map_of (mapAt h a) part = None
                      then (case keyContainer h nextPart of (h', c) \<Rightarrow> mapStore h' a part c)
                      else h) of
                  h1 \<Rightarrow>
                    setByPathRecursive g h1 j
                      (case map_of (mapAt h1 a) part of Some c \<Rightarrow> c | None \<Rightarrow> VNil)
                      (nextPart # rest) v (nextPath currentPath part))
           | _ \<Rightarrow> Return (h, j, Some AccessPropertyOnNonObject)))"

text \<open>
  \<^verbatim>\<open>setByPath\<close>: the empty path replaces the payload; a nil root is first replaced by
  \<^verbatim>\<open>make([]interface{}, idx+1)\<close> when the first segment is numeric, by a new map
  otherwise.
\<close>

definition rootContainer :: "heap \<Rightarrow> JSON \<Rightarrow> string list \<Rightarrow> (heap \<times> val) outcome" where
  "rootContainer h j parts =
     (if data j = VNil
      then (case Atoi (hd parts) of
              Some idx \<Rightarrow> makeSlice h (wrap64 (idx + 1))
            | None \<Rightarrow> Return (newMap h))
      else Return (h, data j))"

definition setByPath ::
  "growth \<Rightarrow> heap \<Rightarrow> JSON \<Rightarrow> string \<Rightarrow> val \<Rightarrow> (heap \<times> JSON \<times> error option) outcome"
where
  "setByPath g h j path v =
     (if path = [] then Return (h, j\<lparr>data := v\<rparr>, None)
      else (case rootContainer h j (splitDot path) of
              Panic \<Rightarrow> Panic
            | Return (h1, d) \<Rightarrow> setByPathRecursive g h1 (j\<lparr>data := d\<rparr>) d (splitDot path) v []))"

text \<open>
  \<^verbatim>\<open>Set\<close> returns the store, the receiver after the call and the returned handle
  \<^verbatim>\<open>&JSON{data: j.data, err: err}\<close>; an errored receiver is returned as it is.
\<close>

definition Set :: "growth \<Rightarrow> heap \<Rightarrow> JSON \<Rightarrow> string \<Rightarrow> val \<Rightarrow> (heap \<times> JSON \<times> JSON) outcome" where
  "Set g h j path v =
     (if err j \<noteq> None then Return (h, j, j)
      else (case setByPath g h j path v of
              Panic \<Rightarrow> Panic
            | Return (h', j', e) \<Rightarrow> Return (h', j', \<lparr>data = data j', err = e\<rparr>)))"

definition Object :: "heap \<Rightarrow> heap \<times> JSON" where
  "Object h = (case newMap h of (h', m) \<Rightarrow> (h', \<lparr>data = m, err = None\<rparr>))"

definition Array :: "heap \<Rightarrow> heap \<times> JSON" where
  "Array h = (case newSlice h 0 of (h', s) \<Rightarrow> (h', \<lparr>data = s, err = None\<rparr>))"


subsection \<open>deleteByPath\<close>

text \<open>
  The loop over all segments but the last, then the deletion; \<^verbatim>\<open>strings.Split\<close> never
  returns an empty list, so the first equation is never reached from \<^verbatim>\<open>deleteByPath\<close>.
\<close>

fun deleteParts :: "heap \<Rightarrow> string \<Rightarrow> val \<Rightarrow> string list \<Rightarrow> heap \<times> error option" where
  "deleteParts h path current [] = (h, None)"
| "deleteParts h path current [lastPart] =
     (case current of
        VMap a \<Rightarrow> (mapDelete h a lastPart, None)
      | _ \<Rightarrow> (h, Some DeleteFromNonObject))"
| "deleteParts h path current (part # rest) =
     (case (Atoi part, current) of
        (Some idx, VSlice a n) \<Rightarrow>
          (if idx < 0 \<or> idx \<ge> int n then (h, Some (ArrayIndexOutOfRange idx))
           else deleteParts h path (arrAt h a ! nat idx) rest)
      | (_, VMap a) \<Rightarrow>
          (case map_of (mapAt h a) part of
             Some v \<Rightarrow> deleteParts h path v rest
           | None \<Rightarrow> (h, Some (PathNotFound path)))
      | (_, _) \<Rightarrow> (h, Some (PropertyOnNonObject part)))"

definition deleteByPath :: "heap \<Rightarrow> JSON \<Rightarrow> string \<Rightarrow> heap \<times> JSON \<times> error option" where
  "deleteByPath h j path =
     (if path = [] then (h, j\<lparr>data := VNil\<rparr>, None)
      else (case deleteParts h path (data j) (splitDot path) of (h', e) \<Rightarrow> (h', j, e)))"

definition Delete :: "heap \<Rightarrow> JSON \<Rightarrow> string \<Rightarrow> heap \<times> JSON \<times> JSON" where
  "Delete h j path =
     (if err j \<noteq> None then (h, j, j)
      else (case deleteByPath h j path of
              (h', j', e) \<Rightarrow> (h', j', \<lparr>data = data j', err = e\<rparr>)))"

subsection \<open>Type accessors\<close>







subsection \<open>Array operations\<close>

definition Length :: "heap \<Rightarrow> JSON \<Rightarrow> nat" where
  "Length h j =
     (if err j \<noteq> None then 0
      else (case data j of
              VSlice a n \<Rightarrow> n
            | VMap a \<Rightarrow> length (mapAt h a)
            | VStr v \<Rightarrow> length v
            | _ \<Rightarrow> 0))"

definition Index :: "heap \<Rightarrow> JSON \<Rightarrow> int \<Rightarrow> JSON" where
  "Index h j i =
     (if err j \<noteq> None then j
      else (case data j of
              VSlice a n \<Rightarrow>
                if i < 0 \<or> i \<ge> int n then \<lparr>data = VNil, err = Some IndexOutOfRange\<rparr>
                else \<lparr>data = arrAt h a ! nat i, err = None\<rparr>
            | _ \<Rightarrow> \<lparr>data = VNil, err = Some NotAnArray\<rparr>))"

text \<open>
  \<^verbatim>\<open>Append\<close>, \<^verbatim>\<open>Prepend\<close> and \<^verbatim>\<open>Remove\<close> assign \<^verbatim>\<open>j.data\<close> and return the
  receiver itself; on a receiver that is not an array they return a new handle. The
  result is the store, the receiver after the call and the returned handle.
\<close>

definition Append :: "growth \<Rightarrow> heap \<Rightarrow> JSON \<Rightarrow> val list \<Rightarrow> heap \<times> JSON \<times> JSON" where
  "Append g h j values =
     (if err j \<noteq> None then (h, j, j)
      else (case data j of
              VSlice a n \<Rightarrow>
                (case appendAll g h a n values of (h', s) \<Rightarrow> (h', j\<lparr>data := s\<rparr>, j\<lparr>data := s\<rparr>))
            | _ \<Rightarrow> (h, j, \<lparr>data = data j, err = Some NotAnArray\<rparr>)))"

text \<open>
  \<^verbatim>\<open>append(values, arr...)\<close>: the variadic arguments arrive in a slice of their own,
  whose capacity is its length.
\<close>

definition Prepend :: "growth \<Rightarrow> heap \<Rightarrow> JSON \<Rightarrow> val list \<Rightarrow> heap \<times> JSON \<times> JSON" where
  "Prepend g h j values =
     (if err j \<noteq> None then (h, j, j)
      else (case data j of
              VSlice a n \<Rightarrow>
                (case appendAll g (h @ [CArr values]) (length h) (length values) (take n (arrAt h a)) of
                   (h', s) \<Rightarrow> (h', j\<lparr>data := s\<rparr>, j\<lparr>data := s\<rparr>))
            | _ \<Rightarrow> (h, j, \<lparr>data = data j, err = Some NotAnArray\<rparr>)))"

text \<open>\<^verbatim>\<open>append(arr[:index], arr[index+1:]...)\<close> shifts the tail down inside the backing array.\<close>

definition Remove :: "growth \<Rightarrow> heap \<Rightarrow> JSON \<Rightarrow> int \<Rightarrow> heap \<times> JSON \<times> JSON" where
  "Remove g h j index =
     (if err j \<noteq> None then (h, j, j)
      else (case data j of
              VSlice a n \<Rightarrow>
                if index < 0 \<or> index \<ge> int n
                then (h, j, \<lparr>data = data j, err = Some IndexOutOfRange\<rparr>)
                else (case appendAll g h a (nat index) (drop (nat index + 1) (take n (arrAt h a))) of
                        (h', s) \<Rightarrow> (h', j\<lparr>data := s\<rparr>, j\<lparr>data := s\<rparr>))
            | _ \<Rightarrow> (h, j, \<lparr>data = data j, err = Some NotAnArray\<rparr>)))"

subsection \<open>Iteration\<close>

text \<open>
  A callback receives the key and a new handle on the element and may change the store.
  A map is visited entry by entry as it was when the loop started; an array element is
  read when its turn comes.
\<close>

type_synonym 'r callback = "string \<Rightarrow> JSON \<Rightarrow> heap \<Rightarrow> heap \<times> 'r"

fun eachElem :: "bool callback \<Rightarrow> heap \<Rightarrow> addr \<Rightarrow> nat \<Rightarrow> nat \<Rightarrow> heap" where
  "eachElem fn h a i 0 = h"
| "eachElem fn h a i (Suc k) =
     (case fn (Itoa i) \<lparr>data = arrAt h a ! i, err = None\<rparr> h of
        (h', continue) \<Rightarrow> if continue then eachElem fn h' a (Suc i) k else h')"

fun eachEntry :: "bool callback \<Rightarrow> heap \<Rightarrow> (string \<times> val) list \<Rightarrow> heap" where
  "eachEntry fn h [] = h"
| "eachEntry fn h ((k, item) # es) =
     (case fn k \<lparr>data = item, err = None\<rparr> h of
        (h', continue) \<Rightarrow> if continue then eachEntry fn h' es else h')"

definition ForEach :: "bool callback \<Rightarrow> heap \<Rightarrow> JSON \<Rightarrow> heap \<times> JSON" where
  "ForEach fn h j =
     (if err j \<noteq> None then (h, j)
      else (case data j of
              VSlice a n \<Rightarrow> (eachElem fn h a 0 n, j)
            | VMap a \<Rightarrow> (eachEntry fn h (mapAt h a), j)
            | _ \<Rightarrow> (h, j)))"

fun mapElems :: "val callback \<Rightarrow> heap \<Rightarrow> addr \<Rightarrow> addr \<Rightarrow> nat \<Rightarrow> nat \<Rightarrow> heap" where
  "mapElems fn h a r i 0 = h"
| "mapElems fn h a r i (Suc k) =
     (case fn (Itoa i) \<lparr>data = arrAt h a ! i, err = None\<rparr> h of
        (h', v) \<Rightarrow> mapElems fn (arrStore h' r i v) a r (Suc i) k)"

fun mapEntries :: "val callback \<Rightarrow> heap \<Rightarrow> addr \<Rightarrow> (string \<times> val) list \<Rightarrow> heap" where
  "mapEntries fn h r [] = h"
| "mapEntries fn h r ((k, item) # es) =
     (case fn k \<lparr>data = item, err = None\<rparr> h of
        (h', v) \<Rightarrow> mapEntries fn (mapStore h' r k v) r es)"

definition Map :: "val callback \<Rightarrow> heap \<Rightarrow> JSON \<Rightarrow> heap \<times> JSON" where
  "Map fn h j =
     (if err j \<noteq> None then (h, j)
      else (case data j of
              VSlice a n \<Rightarrow>
                (case newSlice h n of
                   (h0, r) \<Rightarrow> (mapElems fn h0 a (length h) 0 n, \<lparr>data = r, err = None\<rparr>))
            | VMap a \<Rightarrow>
                (case newMap h of
                   (h0, r) \<Rightarrow> (mapEntries fn h0 (length h) (mapAt h a), \<lparr>data = r, err = None\<rparr>))
            | _ \<Rightarrow> (h, j)))"

fun filterElems :: "growth \<Rightarrow> bool callback \<Rightarrow> heap \<Rightarrow> addr \<Rightarrow> val \<Rightarrow> nat \<Rightarrow> nat \<Rightarrow> heap \<times> val" where
  "filterElems g fn h a r i 0 = (h, r)"
| "filterElems g fn h a r i (Suc k) =
     (case fn (Itoa i) \<lparr>data = arrAt h a ! i, err = None\<rparr> h of
        (h', keep) \<Rightarrow>
          if keep
          then (case r of
                  VSlice b m \<Rightarrow>
                    (case appendAll g h' b m [arrAt h a ! i] of
                       (h'', r') \<Rightarrow> filterElems g fn h'' a r' (Suc i) k)
                | _ \<Rightarrow> filterElems g fn h' a r (Suc i) k)
          else filterElems g fn h' a r (Suc i) k)"

fun filterEntries :: "bool callback \<Rightarrow> heap \<Rightarrow> addr \<Rightarrow> (string \<times> val) list \<Rightarrow> heap" where
  "filterEntries fn h r [] = h"
| "filterEntries fn h r ((k, item) # es) =
     (case fn k \<lparr>data = item, err = None\<rparr> h of
        (h', keep) \<Rightarrow> filterEntries fn (if keep then mapStore h' r k item else h') r es)"

definition Filter :: "growth \<Rightarrow> bool callback \<Rightarrow> heap \<Rightarrow> JSON \<Rightarrow> heap \<times> JSON" where
  "Filter g fn h j =
     (if err j \<noteq> None then (h, j)
      else (case data j of
              VSlice a n \<Rightarrow>
                (case newSlice h 0 of
                   (h0, r) \<Rightarrow>
                     (case filterElems g fn h0 a r 0 n of
                        (h1, r') \<Rightarrow> (h1, \<lparr>data = r', err = None\<rparr>)))
            | VMap a \<Rightarrow>
                (case newMap h of
                   (h0, r) \<Rightarrow> (filterEntries fn h0 (length h) (mapAt h a), \<lparr>data = r, err = None\<rparr>))
            | _ \<Rightarrow> (h, j)))"


subsection \<open>Clone and merge\<close>

text \<open>
  \<^verbatim>\<open>deepClone\<close>, \<^verbatim>\<open>deepMerge\<close> and \<^verbatim>\<open>flattenRecursive\<close> recurse over the payload
  and do not return on a cyclic one; the first argument bounds the depth of the
  recursion, and \<open>None\<close> says that the bound was reached.
\<close>

fun cloneEntries ::
  "(heap \<Rightarrow> val \<Rightarrow> (heap \<times> val) option) \<Rightarrow> heap \<Rightarrow> addr \<Rightarrow> (string \<times> val) list \<Rightarrow> heap option"
where
  "cloneEntries c h r [] = Some h"
| "cloneEntries c h r ((k, v) # es) =
     (case c h v of None \<Rightarrow> None | Some (h', v') \<Rightarrow> cloneEntries c (mapStore h' r k v') r es)"

fun cloneElems ::
  "(heap \<Rightarrow> val \<Rightarrow> (heap \<times> val) option) \<Rightarrow> heap \<Rightarrow> addr \<Rightarrow> nat \<Rightarrow> val list \<Rightarrow> heap option"
where
  "cloneElems c h r i [] = Some h"
| "cloneElems c h r i (v # vs) =
     (case c h v of None \<Rightarrow> None | Some (h', v') \<Rightarrow> cloneElems c (arrStore h' r i v') r (Suc i) vs)"

fun deepClone :: "nat \<Rightarrow> heap \<Rightarrow> val \<Rightarrow> (heap \<times> val) option" where
  "deepClone 0 h v = None"
| "deepClone (Suc f) h v =
     (case v of
        VMap a \<Rightarrow>
          (case newMap h of
             (h0, r) \<Rightarrow>
               (case cloneEntries (deepClone f) h0 (length h) (mapAt h a) of
                  None \<Rightarrow> None
                | Some h1 \<Rightarrow> Some (h1, r)))
      | VSlice a n \<Rightarrow>
          (case newSlice h n of
             (h0, r) \<Rightarrow>
               (case cloneElems (deepClone f) h0 (length h) 0 (take n (arrAt h a)) of
                  None \<Rightarrow> None
                | Some h1 \<Rightarrow> Some (h1, r)))
      | _ \<Rightarrow> Some (h, v))"

definition Clone :: "nat \<Rightarrow> heap \<Rightarrow> JSON \<Rightarrow> (heap \<times> JSON) option" where
  "Clone f h j =
     (if err j \<noteq> None then Some (h, \<lparr>data = VNil, err = err j\<rparr>)
      else (case deepClone f h (data j) of
              None \<Rightarrow> None
            | Some (h', cloned) \<Rightarrow> Some (h', \<lparr>data = cloned, err = None\<rparr>)))"

text \<open>The two copying loops of \<^verbatim>\<open>Merge\<close>: \<^verbatim>\<open>for k, v := range m { result[k] = v }\<close>.\<close>

fun copyEntries :: "heap \<Rightarrow> addr \<Rightarrow> (string \<times> val) list \<Rightarrow> heap" where
  "copyEntries h r [] = h"
| "copyEntries h r ((k, v) # es) = copyEntries (mapStore h r k v) r es"

definition Merge :: "heap \<Rightarrow> JSON \<Rightarrow> JSON \<Rightarrow> heap \<times> JSON" where
  "Merge h j other =
     (if err j \<noteq> None then (h, j)
      else if err other \<noteq> None then (h, \<lparr>data = data j, err = err other\<rparr>)
      else (case (data j, data other) of
              (VMap a, VMap b) \<Rightarrow>
                (case newMap h of
                   (h0, r) \<Rightarrow>
                     (copyEntries (copyEntries h0 (length h) (mapAt h a)) (length h) (mapAt h b),
                      \<lparr>data = r, err = None\<rparr>))
            | (_, _) \<Rightarrow> (h, \<lparr>data = data j, err = Some BothValuesMustBeObjects\<rparr>)))"

fun mergeEntries ::
  "(heap \<Rightarrow> val \<Rightarrow> val \<Rightarrow> (heap \<times> val) option) \<Rightarrow> (heap \<Rightarrow> val \<Rightarrow> (heap \<times> val) option) \<Rightarrow>
   heap \<Rightarrow> addr \<Rightarrow> (string \<times> val) list \<Rightarrow> heap option"
where
  "mergeEntries m c h r [] = Some h"
| "mergeEntries m c h r ((k, v) # es) =
     (case (case map_of (mapAt h r) k of Some dstVal \<Rightarrow> m h dstVal v | None \<Rightarrow> c h v) of
        None \<Rightarrow> None
      | Some (h', v') \<Rightarrow> mergeEntries m c (mapStore h' r k v') r es)"

fun deepMerge :: "nat \<Rightarrow> heap \<Rightarrow> val \<Rightarrow> val \<Rightarrow> (heap \<times> val) option" where
  "deepMerge 0 h dst src = None"
| "deepMerge (Suc f) h dst src =
     (case (dst, src) of
        (VMap a, VMap b) \<Rightarrow>
          (case newMap h of
             (h0, r) \<Rightarrow>
               (case mergeEntries (deepMerge f) (deepClone f)
                       (copyEntries h0 (length h) (mapAt h a)) (length h) (mapAt h b) of
                  None \<Rightarrow> None
                | Some h1 \<Rightarrow> Some (h1, r)))
      | (_, _) \<Rightarrow> deepClone (Suc f) h src)"

definition DeepMerge :: "nat \<Rightarrow> heap \<Rightarrow> JSON \<Rightarrow> JSON \<Rightarrow> (heap \<times> JSON) option" where
  "DeepMerge f h j other =
     (if err j \<noteq> None then Some (h, j)
      else if err other \<noteq> None then Some (h, \<lparr>data = data j, err = err other\<rparr>)
      else (case deepMerge f h (data j) (data other) of
              None \<Rightarrow> None
            | Some (h', result) \<Rightarrow> Some (h', \<lparr>data = result, err = None\<rparr>)))"

subsection \<open>Flatten and Unflatten\<close>

text \<open>
  The flat mapping is a table of its own, given as its association list. \<^verbatim>\<open>Unflatten\<close>
  ranges over it in list order, so a statement about every list with the same entries
  covers every iteration order.
\<close>

definition joinKey :: "string \<Rightarrow> string \<Rightarrow> string" where
  "joinKey prefix k = (if prefix \<noteq> [] then prefix @ ''.'' @ k else k)"

fun flattenEntries ::
  "(val \<Rightarrow> string \<Rightarrow> (string \<times> val) list \<Rightarrow> (string \<times> val) list option) \<Rightarrow>
   string \<Rightarrow> (string \<times> val) list \<Rightarrow> (string \<times> val) list \<Rightarrow> (string \<times> val) list option"
where
  "flattenEntries rc prefix [] result = Some result"
| "flattenEntries rc prefix ((k, v) # es) result =
     (case rc v (joinKey prefix k) result of
        None \<Rightarrow> None
      | Some result' \<Rightarrow> flattenEntries rc prefix es result')"

fun flattenElems ::
  "(val \<Rightarrow> string \<Rightarrow> (string \<times> val) list \<Rightarrow> (string \<times> val) list option) \<Rightarrow>
   string \<Rightarrow> nat \<Rightarrow> val list \<Rightarrow> (string \<times> val) list \<Rightarrow> (string \<times> val) list option"
where
  "flattenElems rc prefix i [] result = Some result"
| "flattenElems rc prefix i (v # vs) result =
     (case rc v (joinKey prefix (Itoa i)) result of
        None \<Rightarrow> None
      | Some result' \<Rightarrow> flattenElems rc prefix (Suc i) vs result')"

fun flattenRecursive ::
  "nat \<Rightarrow> heap \<Rightarrow> val \<Rightarrow> string \<Rightarrow> (string \<times> val) list \<Rightarrow> (string \<times> val) list option"
where
  "flattenRecursive 0 h d prefix result = None"
| "flattenRecursive (Suc f) h d prefix result =
     (case d of
        VMap a \<Rightarrow> flattenEntries (flattenRecursive f h) prefix (mapAt h a) result
      | VSlice a n \<Rightarrow> flattenElems (flattenRecursive f h) prefix 0 (take n (arrAt h a)) result
      | v \<Rightarrow> Some (AList.update prefix v result))"

definition Flatten :: "nat \<Rightarrow> heap \<Rightarrow> JSON \<Rightarrow> (string \<times> val) list option" where
  "Flatten f h j = flattenRecursive f h (data j) [] []"

fun setAll :: "growth \<Rightarrow> heap \<Rightarrow> JSON \<Rightarrow> (string \<times> val) list \<Rightarrow> (heap \<times> JSON) outcome" where
  "setAll g h result [] = Return (h, result)"
| "setAll g h result ((path, v) # flat) =
     (case Set g h result path v of
        Panic \<Rightarrow> Panic
      | Return (h', result', returned) \<Rightarrow> setAll g h' result' flat)"

definition Unflatten :: "growth \<Rightarrow> heap \<Rightarrow> (string \<times> val) list \<Rightarrow> (heap \<times> JSON) outcome" where
  "Unflatten g h flat = (case Object h of (h0, result) \<Rightarrow> setAll g h0 result flat)"


subsection \<open>Reference notions of the specification\<close>

text \<open>The elements of the slice \<open>(a, n)\<close>.\<close>

definition sliceElems :: "heap \<Rightarrow> addr \<Rightarrow> nat \<Rightarrow> val list" where
  "sliceElems h a n = take n (arrAt h a)"

text \<open>
  The character count of a string in the words of the specification: the number of
  UTF-8 encoded characters, that is of the bytes that are not continuation bytes (what
  \<^verbatim>\<open>utf8.RuneCountInString\<close> counts in a valid string).
\<close>

definition characterCount :: "string \<Rightarrow> nat" where
  "characterCount s =
     length (filter (\<lambda>c. \<not> (128 \<le> (of_char c :: nat) \<and> (of_char c :: nat) < 192)) s)"

text \<open>A valid address of a backing array, of a map table.\<close>

definition isArr :: "heap \<Rightarrow> addr \<Rightarrow> bool" where
  "isArr h a = (a < length h \<and> (case h ! a of CArr xs \<Rightarrow> True | CMap m \<Rightarrow> False))"

definition isMap :: "heap \<Rightarrow> addr \<Rightarrow> bool" where
  "isMap h a = (a < length h \<and> (case h ! a of CMap m \<Rightarrow> True | CArr xs \<Rightarrow> False))"

subsection \<open>Structure of a payload\<close>

text \<open>
  The structure that a payload has in a store: a scalar, an object with its keys, or
  an array with its elements. \<open>repFrom L h v t\<close> says that \<open>v\<close> has the structure
  \<open>t\<close> in the store \<open>h\<close> and that every container it reaches lies at an address from
  \<open>L\<close> on. The order of a table does not matter. Two payloads with the same structure
  are structurally equal.
\<close>

datatype tree = TLeaf val | TObj "(string \<times> tree) list" | TArr "tree list"

definition scalar :: "val \<Rightarrow> bool" where
  "scalar v = (case v of VMap a \<Rightarrow> False | VSlice a n \<Rightarrow> False | _ \<Rightarrow> True)"

fun repFrom :: "nat \<Rightarrow> heap \<Rightarrow> val \<Rightarrow> tree \<Rightarrow> bool" where
  "repFrom L h v (TLeaf x) = (v = x \<and> scalar x)"
| "repFrom L h v (TObj kts) =
     (case v of
        VMap a \<Rightarrow>
          L \<le> a \<and> isMap h a \<and> distinct (map fst (mapAt h a)) \<and> distinct (map fst kts) \<and>
          set (map fst (mapAt h a)) = set (map fst kts) \<and>
          (\<forall>kt \<in> set kts.
             case map_of (mapAt h a) (fst kt) of Some c \<Rightarrow> repFrom L h c (snd kt) | None \<Rightarrow> False)
      | _ \<Rightarrow> False)"
| "repFrom L h v (TArr ts) =
     (case v of
        VSlice a n \<Rightarrow>
          L \<le> a \<and> isArr h a \<and> n \<le> length (arrAt h a) \<and>
          list_all2 (repFrom L h) (take n (arrAt h a)) ts
      | _ \<Rightarrow> False)"

definition rep :: "heap \<Rightarrow> val \<Rightarrow> tree \<Rightarrow> bool" where
  "rep h v t = repFrom 0 h v t"

fun depth :: "tree \<Rightarrow> nat" where
  "depth (TLeaf x) = 1"
| "depth (TObj kts) = Suc (Max (insert 0 (set (map (\<lambda>kt. depth (snd kt)) kts))))"
| "depth (TArr ts) = Suc (Max (insert 0 (set (map depth ts))))"

subsection \<open>Positions of a payload and the values Flatten and Unflatten agree on\<close>

text \<open>
  A position is a list of segments: a key selects in an object, the decimal numeral of an
  index selects in an array. \<open>joinDot\<close> writes a position as a path, \<open>sub t p\<close> is the
  subtree of \<open>t\<close> at the position \<open>p\<close>.
\<close>

fun joinDot :: "string list \<Rightarrow> string" where
  "joinDot [] = []"
| "joinDot [p] = p"
| "joinDot (p # ps) = p @ ''.'' @ joinDot ps"

definition dotFree :: "string \<Rightarrow> bool" where
  "dotFree s = (CHR ''.'' \<notin> set s)"

fun sub :: "tree \<Rightarrow> string list \<Rightarrow> tree option" where
  "sub t [] = Some t"
| "sub (TLeaf x) (k # p) = None"
| "sub (TObj kts) (k # p) = (case map_of kts k of Some c \<Rightarrow> sub c p | None \<Rightarrow> None)"
| "sub (TArr ts) (k # p) =
     (case Atoi k of
        Some i \<Rightarrow> if 0 \<le> i \<and> nat i < length ts \<and> k = Itoa (nat i) then sub (ts ! nat i) p else None
      | None \<Rightarrow> None)"

text \<open>
  The values on which the round trip is stated: keys have no dot and are not read as an
  integer by \<^verbatim>\<open>strconv.Atoi\<close>, every object and array inside is non-empty, an array has
  at most 10000 elements and none of them is itself an array; at the root no key is empty.
\<close>

definition okKey :: "string \<Rightarrow> bool" where
  "okKey k = (dotFree k \<and> Atoi k = None)"

fun isArrTree :: "tree \<Rightarrow> bool" where
  "isArrTree (TArr ts) = True"
| "isArrTree t = False"

fun okTree :: "tree \<Rightarrow> bool" where
  "okTree (TLeaf x) = scalar x"
| "okTree (TObj kts) =
     (kts \<noteq> [] \<and> distinct (map fst kts) \<and> (\<forall>kt \<in> set kts. okKey (fst kt) \<and> okTree (snd kt)))"
| "okTree (TArr ts) =
     (ts \<noteq> [] \<and> length ts \<le> 10000 \<and> (\<forall>t \<in> set ts. \<not> isArrTree t \<and> okTree t))"

definition rootKeysOk :: "tree \<Rightarrow> bool" where
  "rootKeysOk t = (case t of TObj kts \<Rightarrow> \<forall>kt \<in> set kts. fst kt \<noteq> [] | _ \<Rightarrow> True)"

text \<open>The flat mapping of a tree below the prefix \<open>q\<close>: one entry for each leaf.\<close>

definition leafEntries :: "string list \<Rightarrow> tree \<Rightarrow> (string \<times> val) set" where
  "leafEntries q t = {(joinDot (q @ p), x) | p x. sub t p = Some (TLeaf x)}"

text \<open>
  The state of the store while \<^verbatim>\<open>Unflatten\<close> runs. \<open>T\<close> is the set of positions of the
  tree \<open>t0\<close> assigned so far (with their prefixes), \<open>pv p\<close> is the value that stands at the
  position \<open>p\<close>. A leaf stands for itself; an object node is a map whose keys are the
  children assigned so far; an array node is a slice whose slots hold the children
  assigned so far and nil elsewhere. Different nodes live in different cells, all of them
  at addresses from \<open>L\<close> on.
\<close>

fun addrOf :: "val \<Rightarrow> addr option" where
  "addrOf (VMap a) = Some a"
| "addrOf (VSlice a n) = Some a"
| "addrOf v = None"

definition nodeOk ::
  "nat \<Rightarrow> tree \<Rightarrow> heap \<Rightarrow> (string list \<Rightarrow> val) \<Rightarrow> string list set \<Rightarrow> string list \<Rightarrow> bool"
where
  "nodeOk L t0 h pv T p =
     (case sub t0 p of
        Some (TLeaf x) \<Rightarrow> pv p = x
      | Some (TObj kts) \<Rightarrow>
          (\<exists>a. pv p = VMap a \<and> L \<le> a \<and> isMap h a \<and> distinct (map fst (mapAt h a)) \<and>
               (\<forall>k. map_of (mapAt h a) k = (if p @ [k] \<in> T then Some (pv (p @ [k])) else None)))
      | Some (TArr ts) \<Rightarrow>
          (\<exists>a n. pv p = VSlice a n \<and> L \<le> a \<and> isArr h a \<and> n \<le> length (arrAt h a) \<and>
                 n \<le> length ts \<and> (\<forall>i < length ts. p @ [Itoa i] \<in> T \<longrightarrow> i < n) \<and>
                 (\<forall>i < n. arrAt h a ! i = (if p @ [Itoa i] \<in> T then pv (p @ [Itoa i]) else VNil)))
      | None \<Rightarrow> False)"

definition built ::
  "nat \<Rightarrow> tree \<Rightarrow> heap \<Rightarrow> (string list \<Rightarrow> val) \<Rightarrow> string list set \<Rightarrow> bool"
where
  "built L t0 h pv T =
     ([] \<in> T \<and> (\<forall>p k. p @ [k] \<in> T \<longrightarrow> p \<in> T) \<and> (\<forall>p \<in> T. nodeOk L t0 h pv T p) \<and>
      (\<forall>p \<in> T. \<forall>q \<in> T. addrOf (pv p) \<noteq> None \<and> addrOf (pv p) = addrOf (pv q) \<longrightarrow> p = q))"


section \<open>Properties\<close>

subsection \<open>Store lemmas\<close>

lemma arrAt_append_new [simp]: "arrAt (h @ [CArr xs]) (length h) = xs"
  by (simp add: arrAt_def)

lemma arrAt_update_same [simp]: "a < length h \<Longrightarrow> arrAt (h[a := CArr xs]) a = xs"
  by (simp add: arrAt_def)

lemma mapAt_update_same [simp]: "a < length h \<Longrightarrow> mapAt (h[a := CMap m]) a = m"
  by (simp add: mapAt_def)

lemma mapAt_update_other [simp]: "a \<noteq> b \<Longrightarrow> mapAt (h[a := c]) b = mapAt h b"
  by (simp add: mapAt_def)

lemma appendAll_shape: "\<exists>h' a'. appendAll g h a n vs = (h', VSlice a' (n + length vs))"
  by (simp add: appendAll_def Let_def)

lemma appendAll_elems:
  assumes "n \<le> length (arrAt h a)" and "appendAll g h a n vs = (h', VSlice a' m)"
  shows "m = n + length vs \<and> take m (arrAt h' a') = take n (arrAt h a) @ vs"
proof (cases "n + length vs \<le> length (arrAt h a)")
  case True
  show ?thesis
  proof (cases "a < length h")
    case t: True
    with True assms show ?thesis by (auto simp: appendAll_def Let_def)
  next
    case False
    then have "arrAt h a = []" by (simp add: arrAt_def)
    with True assms show ?thesis by (auto simp: appendAll_def Let_def arrAt_def)
  qed
next
  case False
  with assms show ?thesis by (auto simp: appendAll_def Let_def)
qed

lemma copyEntries_length [simp]: "length (copyEntries h r es) = length h"
  by (induction es arbitrary: h) (auto simp: mapStore_def)

lemma copyEntries_other: "b \<noteq> r \<Longrightarrow> copyEntries h r es ! b = h ! b"
  by (induction es arbitrary: h) (auto simp: mapStore_def)

lemma copyEntries_map:
  "r < length h \<Longrightarrow> map_of (mapAt (copyEntries h r es) r) = map_of (mapAt h r) ++ map_of (rev es)"
proof (induction es arbitrary: h)
  case Nil
  then show ?case by simp
next
  case (Cons e es)
  obtain k v where e: "e = (k, v)" by (cases e)
  have "map_of (mapAt (copyEntries (mapStore h r k v) r es) r) =
        map_of (mapAt (mapStore h r k v) r) ++ map_of (rev es)"
    using Cons.prems by (intro Cons.IH) (simp add: mapStore_def)
  also have "map_of (mapAt (mapStore h r k v) r) = (map_of (mapAt h r))(k \<mapsto> v)"
    using Cons.prems by (simp add: mapStore_def update_conv')
  also have "(map_of (mapAt h r))(k \<mapsto> v) ++ map_of (rev es) =
             map_of (mapAt h r) ++ map_of (rev (e # es))"
    by (rule ext) (simp add: e map_add_def split: option.splits)
  finally show ?case by (simp add: e)
qed

lemma map_of_rev_distinct: "distinct (map fst es) \<Longrightarrow> map_of (rev es) = map_of es"
  by (rule ext)
    (metis distinct_rev map_of_eq_Some_iff map_of_eq_None_iff option.exhaust rev_map set_rev)

lemma isArr_arrAt: "isArr h a \<Longrightarrow> h ! a = CArr (arrAt h a)"
  by (auto simp: isArr_def arrAt_def split: cell.splits)

lemma isMap_mapAt: "isMap h a \<Longrightarrow> h ! a = CMap (mapAt h a)"
  by (auto simp: isMap_def mapAt_def split: cell.splits)

lemma arrAt_cong: "a < length h \<Longrightarrow> a < length h' \<Longrightarrow> h' ! a = h ! a \<Longrightarrow> arrAt h' a = arrAt h a"
  by (simp add: arrAt_def)

lemma mapAt_cong: "a < length h \<Longrightarrow> a < length h' \<Longrightarrow> h' ! a = h ! a \<Longrightarrow> mapAt h' a = mapAt h a"
  by (simp add: mapAt_def)

lemma appendOne_frame:
  assumes "appendOne g h a n x = (h', a')"
  shows "length h \<le> length h' \<and> (a' = a \<or> a' = length h) \<and>
         (\<forall>b < length h. b \<noteq> a \<longrightarrow> h' ! b = h ! b)"
  using assms by (auto simp: appendOne_def Let_def nth_append split: if_splits)

lemma appendOne_spec:
  assumes "appendOne g h a n x = (h', a')" and "isArr h a" and "n \<le> length (arrAt h a)"
  shows "isArr h' a' \<and> Suc n \<le> length (arrAt h' a') \<and>
         take (Suc n) (arrAt h' a') = take n (arrAt h a) @ [x] \<and>
         isArr h' a \<and> take n (arrAt h' a) = take n (arrAt h a) \<and>
         length (arrAt h' a) = length (arrAt h a)"
proof (cases "n < length (arrAt h a)")
  case True
  with assms have h': "h' = h[a := CArr ((arrAt h a)[n := x])]" and a': "a' = a"
    by (auto simp: appendOne_def Let_def)
  from assms(2) have al: "a < length h" by (simp add: isArr_def)
  show ?thesis
    using True al by (simp add: h' a' isArr_def take_Suc_conv_app_nth)
next
  case False
  with assms(3) have n: "n = length (arrAt h a)" by simp
  from False assms have h': "h' = h @ [CArr (take n (arrAt h a) @ x #
        replicate (max (Suc n) (g (length (arrAt h a)) (Suc n)) - Suc n) VNil)]" and a': "a' = length h"
    by (auto simp: appendOne_def Let_def)
  from assms(2) have al: "a < length h" by (simp add: isArr_def)
  have "arrAt h' a = arrAt h a"
    using al by (simp add: h' arrAt_def nth_append)
  moreover have "isArr h' a"
    using assms(2) by (auto simp: h' isArr_def nth_append)
  ultimately show ?thesis
    by (simp add: h' a' isArr_def n)
qed

lemma growTo_frame:
  "growTo g h a n idx = (h', a', n') \<Longrightarrow>
     length h \<le> length h' \<and> (a' = a \<or> length h \<le> a') \<and> n' = max n (Suc idx) \<and>
     (\<forall>b < length h. b \<noteq> a \<longrightarrow> h' ! b = h ! b)"
proof (induction g h a n idx arbitrary: h' a' n' rule: growTo.induct)
  case (1 g h a n idx)
  show ?case
  proof (cases "n \<le> idx")
    case True
    obtain h1 a1 where ap: "appendOne g h a n VNil = (h1, a1)" by (cases "appendOne g h a n VNil")
    from "1.prems" True ap have rec: "growTo g h1 a1 (Suc n) idx = (h', a', n')"
      by (simp add: growTo.simps[of g h a n idx])
    from "1.IH"[OF True, of h' a' n'] rec ap
    have ih: "length h1 \<le> length h' \<and> (a' = a1 \<or> length h1 \<le> a') \<and> n' = max (Suc n) (Suc idx) \<and>
              (\<forall>b < length h1. b \<noteq> a1 \<longrightarrow> h' ! b = h1 ! b)" by simp
    from appendOne_frame[OF ap]
    have fr: "length h \<le> length h1" "a1 = a \<or> a1 = length h" "\<forall>b < length h. b \<noteq> a \<longrightarrow> h1 ! b = h ! b"
      by auto
    show ?thesis
      using ih fr True by (auto simp: max_def)
  next
    case False
    with "1.prems" show ?thesis by (simp add: growTo.simps[of g h a n idx] max_def)
  qed
qed

lemma growTo_spec:
  "growTo g h a n idx = (h', a', n') \<Longrightarrow> isArr h a \<Longrightarrow> n \<le> length (arrAt h a) \<Longrightarrow>
     isArr h' a' \<and> n' \<le> length (arrAt h' a') \<and>
     take n' (arrAt h' a') = take n (arrAt h a) @ replicate (n' - n) VNil \<and>
     isArr h' a \<and> take n (arrAt h' a) = take n (arrAt h a)"
proof (induction g h a n idx arbitrary: h' a' n' rule: growTo.induct)
  case (1 g h a n idx)
  show ?case
  proof (cases "n \<le> idx")
    case True
    obtain h1 a1 where ap: "appendOne g h a n VNil = (h1, a1)" by (cases "appendOne g h a n VNil")
    from "1.prems" True ap have rec: "growTo g h1 a1 (Suc n) idx = (h', a', n')"
      by (simp add: growTo.simps[of g h a n idx])
    from appendOne_spec[OF ap "1.prems"(2,3)]
    have s1: "isArr h1 a1" "Suc n \<le> length (arrAt h1 a1)"
      "take (Suc n) (arrAt h1 a1) = take n (arrAt h a) @ [VNil]"
      "isArr h1 a" "take n (arrAt h1 a) = take n (arrAt h a)" by auto
    from "1.IH"[OF True, of h' a' n'] rec ap s1
    have ih: "isArr h' a'" "n' \<le> length (arrAt h' a')"
      "take n' (arrAt h' a') = take (Suc n) (arrAt h1 a1) @ replicate (n' - Suc n) VNil"
      "isArr h' a1" "take (Suc n) (arrAt h' a1) = take (Suc n) (arrAt h1 a1)" by auto
    from growTo_frame[OF rec]
    have fr: "length h1 \<le> length h'" "n' = max (Suc n) (Suc idx)" "\<forall>b < length h1. b \<noteq> a1 \<longrightarrow> h' ! b = h1 ! b"
      by auto
    from appendOne_frame[OF ap] have fr1: "a1 = a \<or> a1 = length h" "length h \<le> length h1" by auto
    have al: "a < length h" using "1.prems"(2) by (simp add: isArr_def)
    have olda: "isArr h' a \<and> take n (arrAt h' a) = take n (arrAt h a)"
    proof (cases "a1 = a")
      case True
      have "take n (take (Suc n) (arrAt h' a)) = take n (take (Suc n) (arrAt h1 a))"
        using ih(5) True by simp
      then have "take n (arrAt h' a) = take n (arrAt h1 a)" by (simp add: min_def)
      with ih(4) True s1(5) show ?thesis by simp
    next
      case False
      with fr(3) al fr1 have "h' ! a = h1 ! a" by auto
      moreover have "a < length h1" "a < length h'" using al fr1 fr(1) by auto
      ultimately have "arrAt h' a = arrAt h1 a" "isArr h' a"
        using s1(4) by (auto simp: arrAt_def isArr_def)
      with s1(5) show ?thesis by simp
    qed
    have "n' - n = Suc (n' - Suc n)" using fr(2) True by (simp add: max_def)
    then have "take n' (arrAt h' a') = take n (arrAt h a) @ replicate (n' - n) VNil"
      using ih(3) s1(3) by simp
    with ih(1,2) olda show ?thesis by simp
  next
    case False
    with "1.prems" show ?thesis by (simp add: growTo.simps[of g h a n idx])
  qed
qed

lemma Atoi_digit0 [simp]: "Atoi ''0'' = Some 0" by (simp add: Atoi_def digitVal_def)
lemma Atoi_digit1 [simp]: "Atoi ''1'' = Some 1" by (simp add: Atoi_def digitVal_def)

subsection \<open>The sticky error\<close>

text \<open>
  C2. On a receiver whose error slot is set, each of Get, Set, Delete, Index, Append,
  Prepend, Remove, Merge, DeepMerge, Map, Filter and ForEach returns the receiver
  itself, so the returned handle carries the error, and neither the store nor the
  receiver changes; no callback runs.
\<close>

theorem errored_receiver_short_circuits:
  assumes "err j \<noteq> None"
  shows "Get h j p = j \<and> Set g h j p v = Return (h, j, j) \<and> Delete h j p = (h, j, j) \<and>
         Index h j i = j \<and> Append g h j vs = (h, j, j) \<and> Prepend g h j vs = (h, j, j) \<and>
         Remove g h j i = (h, j, j) \<and> Merge h j other = (h, j) \<and>
         DeepMerge f h j other = Some (h, j) \<and> Map fm h j = (h, j) \<and>
         Filter g fp h j = (h, j) \<and> ForEach fp h j = (h, j)"
  using assms
  by (simp add: Get_def Set_def Delete_def Index_def Append_def Prepend_def Remove_def
      Merge_def DeepMerge_def Map_def Filter_def ForEach_def)

theorem errored_receiver_short_circuits_witness:
  "err \<lparr>data = VMap 0, err = Some (ForeignError ''unexpected end of JSON input'')\<rparr> \<noteq> None \<and>
   Set (\<lambda>c n. 2 * c) [CMap []]
     \<lparr>data = VMap 0, err = Some (ForeignError ''unexpected end of JSON input'')\<rparr> ''key'' (VStr ''value'') =
   Return ([CMap []],
     \<lparr>data = VMap 0, err = Some (ForeignError ''unexpected end of JSON input'')\<rparr>,
     \<lparr>data = VMap 0, err = Some (ForeignError ''unexpected end of JSON input'')\<rparr>)"
  using errored_receiver_short_circuits
    [where j = "\<lparr>data = VMap 0, err = Some (ForeignError ''unexpected end of JSON input'')\<rparr>"
       and h = "[CMap []]" and g = "\<lambda>c n. 2 * c" and p = "''key''" and v = "VStr ''value''"]
  by simp

text \<open>
  C10. When the receiver carries no error and the argument does, Merge and DeepMerge
  return a handle with the argument's error and the receiver's payload, and the store
  does not change.
\<close>

theorem merge_argument_error_propagates:
  assumes "err j = None" and "err other \<noteq> None"
  shows "Merge h j other = (h, \<lparr>data = data j, err = err other\<rparr>) \<and>
         DeepMerge f h j other = Some (h, \<lparr>data = data j, err = err other\<rparr>)"
  using assms by (simp add: Merge_def DeepMerge_def)

theorem merge_argument_error_propagates_witness:
  "err \<lparr>data = VMap 0, err = None\<rparr> = None \<and>
   err \<lparr>data = VNil, err = Some NotAnArray\<rparr> \<noteq> None \<and>
   Merge [CMap []] \<lparr>data = VMap 0, err = None\<rparr> \<lparr>data = VNil, err = Some NotAnArray\<rparr> =
     ([CMap []], \<lparr>data = VMap 0, err = Some NotAnArray\<rparr>) \<and>
   DeepMerge 0 [CMap []] \<lparr>data = VMap 0, err = None\<rparr> \<lparr>data = VNil, err = Some NotAnArray\<rparr> =
     Some ([CMap []], \<lparr>data = VMap 0, err = Some NotAnArray\<rparr>)"
  using merge_argument_error_propagates
    [where j = "\<lparr>data = VMap 0, err = None\<rparr>" and other = "\<lparr>data = VNil, err = Some NotAnArray\<rparr>"
       and h = "[CMap []]" and f = 0]
  by simp


subsection \<open>Append, Prepend, Merge, Length and the accessors\<close>

text \<open>
  C7. On a receiver without error that is not an array, Append and Prepend return a
  handle with the error "not an array" and the receiver's payload, and neither the
  store nor the receiver changes. On an array (a slice whose length is within its
  capacity) the receiver gets a slice whose elements are the old ones followed by the
  arguments (Append), or the arguments followed by the old ones (Prepend), and is returned.
\<close>

theorem Append_Prepend_spec:
  assumes "err j = None"
  shows "((\<forall>a n. data j \<noteq> VSlice a n) \<longrightarrow>
           Append g h j vs = (h, j, \<lparr>data = data j, err = Some NotAnArray\<rparr>) \<and>
           Prepend g h j vs = (h, j, \<lparr>data = data j, err = Some NotAnArray\<rparr>)) \<and>
         (data j = VSlice a n \<and> n \<le> length (arrAt h a) \<longrightarrow>
           (\<exists>h' a'. Append g h j vs =
                      (h', j\<lparr>data := VSlice a' (n + length vs)\<rparr>, j\<lparr>data := VSlice a' (n + length vs)\<rparr>) \<and>
                    sliceElems h' a' (n + length vs) = sliceElems h a n @ vs) \<and>
           (\<exists>h' a'. Prepend g h j vs =
                      (h', j\<lparr>data := VSlice a' (length vs + n)\<rparr>, j\<lparr>data := VSlice a' (length vs + n)\<rparr>) \<and>
                    sliceElems h' a' (length vs + n) = vs @ sliceElems h a n))"
proof (intro conjI impI allI)
  assume "\<forall>a n. data j \<noteq> VSlice a n"
  then show "Append g h j vs = (h, j, \<lparr>data = data j, err = Some NotAnArray\<rparr>)"
    using assms by (cases "data j") (auto simp: Append_def)
next
  assume "\<forall>a n. data j \<noteq> VSlice a n"
  then show "Prepend g h j vs = (h, j, \<lparr>data = data j, err = Some NotAnArray\<rparr>)"
    using assms by (cases "data j") (auto simp: Prepend_def)
next
  assume "data j = VSlice a n \<and> n \<le> length (arrAt h a)"
  then have d: "data j = VSlice a n" and le: "n \<le> length (arrAt h a)" by auto
  obtain h1 a1 where r1: "appendAll g h a n vs = (h1, VSlice a1 (n + length vs))"
    using appendAll_shape by blast
  from appendAll_elems[OF le r1]
  have "take (n + length vs) (arrAt h1 a1) = take n (arrAt h a) @ vs" by auto
  then show "\<exists>h' a'. Append g h j vs =
                      (h', j\<lparr>data := VSlice a' (n + length vs)\<rparr>, j\<lparr>data := VSlice a' (n + length vs)\<rparr>) \<and>
                    sliceElems h' a' (n + length vs) = sliceElems h a n @ vs"
    using assms d r1 by (auto simp: Append_def sliceElems_def)
next
  assume "data j = VSlice a n \<and> n \<le> length (arrAt h a)"
  then have d: "data j = VSlice a n" and le: "n \<le> length (arrAt h a)" by auto
  obtain h2 a2 where
    r2: "appendAll g (h @ [CArr vs]) (length h) (length vs) (take n (arrAt h a)) =
         (h2, VSlice a2 (length vs + length (take n (arrAt h a))))"
    using appendAll_shape by blast
  have "length vs \<le> length (arrAt (h @ [CArr vs]) (length h))" by simp
  from appendAll_elems[OF this r2] le
  have "take (length vs + n) (arrAt h2 a2) = vs @ take n (arrAt h a)" by auto
  then show "\<exists>h' a'. Prepend g h j vs =
                      (h', j\<lparr>data := VSlice a' (length vs + n)\<rparr>, j\<lparr>data := VSlice a' (length vs + n)\<rparr>) \<and>
                    sliceElems h' a' (length vs + n) = vs @ sliceElems h a n"
    using assms d r2 le by (auto simp: Prepend_def sliceElems_def)
qed

theorem Append_Prepend_spec_witness:
  "err \<lparr>data = VMap 0, err = None\<rparr> = None \<and>
   Append (\<lambda>c n. 2 * c) [CMap [(''key'', VStr ''value'')]] \<lparr>data = VMap 0, err = None\<rparr> [VStr ''value''] =
     ([CMap [(''key'', VStr ''value'')]], \<lparr>data = VMap 0, err = None\<rparr>, \<lparr>data = VMap 0, err = Some NotAnArray\<rparr>) \<and>
   err \<lparr>data = VSlice 0 1, err = None\<rparr> = None \<and>
   (\<exists>h' a'. Append (\<lambda>c n. 2 * c) [CArr [VInt 1]] \<lparr>data = VSlice 0 1, err = None\<rparr> [VInt 2] =
        (h', \<lparr>data = VSlice a' 2, err = None\<rparr>, \<lparr>data = VSlice a' 2, err = None\<rparr>) \<and>
      sliceElems h' a' 2 = [VInt 1, VInt 2]) \<and>
   (\<exists>h' a'. Prepend (\<lambda>c n. 2 * c) [CArr [VInt 1]] \<lparr>data = VSlice 0 1, err = None\<rparr> [VInt 2] =
        (h', \<lparr>data = VSlice a' 2, err = None\<rparr>, \<lparr>data = VSlice a' 2, err = None\<rparr>) \<and>
      sliceElems h' a' 2 = [VInt 2, VInt 1])"
  using Append_Prepend_spec
    [where j = "\<lparr>data = VMap 0, err = None\<rparr>" and h = "[CMap [(''key'', VStr ''value'')]]"
       and g = "\<lambda>c n. 2 * c" and vs = "[VStr ''value'']"]
    Append_Prepend_spec
    [where j = "\<lparr>data = VSlice 0 1, err = None\<rparr>" and h = "[CArr [VInt 1]]"
       and g = "\<lambda>c n. 2 * c" and vs = "[VInt 2]" and a = 0 and n = 1]
  by (simp add: sliceElems_def numeral_2_eq_2 arrAt_def)

text \<open>
  C8. For a receiver and an argument without error, Merge yields the error "both values
  must be objects" on the receiver's payload and an unchanged store unless both are
  maps; for two maps it allocates one new map, leaves every existing cell as it was, and
  the new map is the receiver's table overridden by the argument's table: a key of
  both holds the argument's value, whatever the two values are.
\<close>

theorem Merge_spec:
  assumes "err j = None" and "err other = None"
  shows "(\<not> (\<exists>a b. data j = VMap a \<and> data other = VMap b) \<longrightarrow>
            Merge h j other = (h, \<lparr>data = data j, err = Some BothValuesMustBeObjects\<rparr>)) \<and>
         (data j = VMap a \<and> data other = VMap b \<and>
                distinct (map fst (mapAt h a)) \<and> distinct (map fst (mapAt h b)) \<longrightarrow>
            (\<exists>h'. Merge h j other = (h', \<lparr>data = VMap (length h), err = None\<rparr>) \<and>
                  length h' = Suc (length h) \<and> take (length h) h' = h \<and>
                  map_of (mapAt h' (length h)) = map_of (mapAt h a) ++ map_of (mapAt h b)))"
proof (intro conjI impI allI)
  assume "\<not> (\<exists>a b. data j = VMap a \<and> data other = VMap b)"
  then show "Merge h j other = (h, \<lparr>data = data j, err = Some BothValuesMustBeObjects\<rparr>)"
    using assms by (cases "data j"; cases "data other") (auto simp: Merge_def)
next
  assume "data j = VMap a \<and> data other = VMap b \<and>
          distinct (map fst (mapAt h a)) \<and> distinct (map fst (mapAt h b))"
  then have d: "data j = VMap a" "data other = VMap b"
    and da: "distinct (map fst (mapAt h a))" and db: "distinct (map fst (mapAt h b))" by auto
  let ?r = "length h"
  let ?h0 = "h @ [CMap []]"
  let ?h1 = "copyEntries ?h0 ?r (mapAt h a)"
  let ?h2 = "copyEntries ?h1 ?r (mapAt h b)"
  have m: "Merge h j other = (?h2, \<lparr>data = VMap ?r, err = None\<rparr>)"
    using assms d by (simp add: Merge_def newMap_def)
  have len: "length ?h2 = Suc ?r" by simp
  have "\<And>i. i < ?r \<Longrightarrow> ?h2 ! i = h ! i"
    by (simp add: copyEntries_other nth_append)
  then have pre: "take ?r ?h2 = h"
    by (intro nth_equalityI) (simp_all add: len)
  have "map_of (mapAt ?h1 ?r) = map_of (mapAt ?h0 ?r) ++ map_of (rev (mapAt h a))"
    by (rule copyEntries_map) simp
  then have m1: "map_of (mapAt ?h1 ?r) = map_of (mapAt h a)"
    using da by (simp add: map_of_rev_distinct mapAt_def)
  have "map_of (mapAt ?h2 ?r) = map_of (mapAt ?h1 ?r) ++ map_of (rev (mapAt h b))"
    by (rule copyEntries_map) simp
  then have "map_of (mapAt ?h2 ?r) = map_of (mapAt h a) ++ map_of (mapAt h b)"
    using db m1 by (simp add: map_of_rev_distinct)
  with m len pre
  show "\<exists>h'. Merge h j other = (h', \<lparr>data = VMap (length h), err = None\<rparr>) \<and>
                  length h' = Suc (length h) \<and> take (length h) h' = h \<and>
                  map_of (mapAt h' (length h)) = map_of (mapAt h a) ++ map_of (mapAt h b)"
    by blast
qed

theorem Merge_spec_witness:
  "Merge [CMap []] \<lparr>data = VMap 0, err = None\<rparr> \<lparr>data = VStr ''x'', err = None\<rparr> =
     ([CMap []], \<lparr>data = VMap 0, err = Some BothValuesMustBeObjects\<rparr>) \<and>
   (\<exists>h'. Merge [CMap [(''age'', VInt 25), (''settings'', VMap 1)], CMap [(''theme'', VStr ''light'')],
                CMap [(''age'', VInt 30), (''settings'', VMap 3)], CMap [(''lang'', VStr ''zh-CN'')]]
            \<lparr>data = VMap 0, err = None\<rparr> \<lparr>data = VMap 2, err = None\<rparr> =
          (h', \<lparr>data = VMap 4, err = None\<rparr>) \<and>
        map_of (mapAt h' 4) ''age'' = Some (VInt 30) \<and>
        map_of (mapAt h' 4) ''settings'' = Some (VMap 3))"
proof -
  let ?H = "[CMap [(''age'', VInt 25), (''settings'', VMap 1)], CMap [(''theme'', VStr ''light'')],
             CMap [(''age'', VInt 30), (''settings'', VMap 3)], CMap [(''lang'', VStr ''zh-CN'')]]"
  let ?J = "\<lparr>data = VMap 0, err = None\<rparr>"
  let ?O = "\<lparr>data = VMap 2, err = None\<rparr>"
  have e: "err ?J = None" "err ?O = None" "err \<lparr>data = VStr ''x'', err = None\<rparr> = None"
    by simp_all
  have a: "data ?J = VMap 0 \<and> data ?O = VMap 2 \<and>
           distinct (map fst (mapAt ?H 0)) \<and> distinct (map fst (mapAt ?H 2))"
    by (simp add: mapAt_def)
  have l: "length ?H = 4" by simp
  from Merge_spec [OF e(1) e(2), where h = ?H and a = 0 and b = 2] a
  obtain h' where "Merge ?H ?J ?O = (h', \<lparr>data = VMap (length ?H), err = None\<rparr>)"
    and "map_of (mapAt h' (length ?H)) = map_of (mapAt ?H 0) ++ map_of (mapAt ?H 2)"
    by blast
  then have "Merge ?H ?J ?O = (h', \<lparr>data = VMap 4, err = None\<rparr>) \<and>
        map_of (mapAt h' 4) ''age'' = Some (VInt 30) \<and>
        map_of (mapAt h' 4) ''settings'' = Some (VMap 3)"
    unfolding l by (simp add: mapAt_def)
  moreover have "Merge [CMap []] ?J \<lparr>data = VStr ''x'', err = None\<rparr> =
     ([CMap []], \<lparr>data = VMap 0, err = Some BothValuesMustBeObjects\<rparr>)"
    using Merge_spec [OF e(1) e(3), where h = "[CMap []]"] by simp
  ultimately show ?thesis by blast
qed

text \<open>
  C5, as stated, says that Length of a String is its character count. The string of
  the two bytes C3 A9 is the single character U+00E9, and Length is 2.
\<close>

theorem Length_character_count_counterexample:
  "Length [] \<lparr>data = VStr [char_of (195 :: nat), char_of (169 :: nat)], err = None\<rparr> \<noteq>
   characterCount [char_of (195 :: nat), char_of (169 :: nat)]"
  by (simp add: Length_def characterCount_def)

text \<open>
  C5, amended. For a receiver without error, Length is the number of elements of an
  array, the number of keys of a map (whose table has distinct keys), the number of
  bytes of a string, and 0 for every other payload.
\<close>

theorem Length_spec:
  assumes "err j = None"
  shows "(data j = VSlice a n \<and> n \<le> length (arrAt h a) \<longrightarrow> Length h j = length (sliceElems h a n)) \<and>
         (data j = VMap a \<and> distinct (map fst (mapAt h a)) \<longrightarrow>
            Length h j = card (dom (map_of (mapAt h a)))) \<and>
         (data j = VStr s \<longrightarrow> Length h j = length s) \<and>
         ((\<forall>a n. data j \<noteq> VSlice a n) \<and> (\<forall>a. data j \<noteq> VMap a) \<and> (\<forall>s. data j \<noteq> VStr s) \<longrightarrow>
            Length h j = 0)"
proof (intro conjI impI)
  assume "data j = VMap a \<and> distinct (map fst (mapAt h a))"
  then have d: "data j = VMap a" and dist: "distinct (map fst (mapAt h a))" by auto
  have "card (dom (map_of (mapAt h a))) = card (set (map fst (mapAt h a)))"
    by (simp add: dom_map_of_conv_image_fst)
  also have "\<dots> = length (mapAt h a)"
    using distinct_card[OF dist] by simp
  finally show "Length h j = card (dom (map_of (mapAt h a)))"
    using assms d by (simp add: Length_def)
next
  assume "(\<forall>a n. data j \<noteq> VSlice a n) \<and> (\<forall>a. data j \<noteq> VMap a) \<and> (\<forall>s. data j \<noteq> VStr s)"
  then show "Length h j = 0"
    using assms by (cases "data j") (auto simp: Length_def)
qed (use assms in \<open>auto simp: Length_def sliceElems_def\<close>)

theorem Length_spec_witness:
  "Length [CArr [VInt 1, VInt 2, VNil, VNil]] \<lparr>data = VSlice 0 2, err = None\<rparr> =
     length (sliceElems [CArr [VInt 1, VInt 2, VNil, VNil]] 0 2) \<and>
   Length [CMap [(''a'', VInt 1), (''b'', VInt 2)]] \<lparr>data = VMap 0, err = None\<rparr> =
     card (dom (map_of (mapAt [CMap [(''a'', VInt 1), (''b'', VInt 2)]] 0))) \<and>
   Length [] \<lparr>data = VStr [char_of (195 :: nat), char_of (169 :: nat)], err = None\<rparr> = 2 \<and>
   Length [] \<lparr>data = VBool True, err = None\<rparr> = 0"
  using Length_spec [where j = "\<lparr>data = VSlice 0 2, err = None\<rparr>" and a = 0 and n = 2
                       and h = "[CArr [VInt 1, VInt 2, VNil, VNil]]"]
    Length_spec [where j = "\<lparr>data = VMap 0, err = None\<rparr>" and a = 0
                   and h = "[CMap [(''a'', VInt 1), (''b'', VInt 2)]]"]
    Length_spec [where j = "\<lparr>data = VStr [char_of (195 :: nat), char_of (169 :: nat)], err = None\<rparr>"
                   and s = "[char_of (195 :: nat), char_of (169 :: nat)]" and h = "[]"]
    Length_spec [where j = "\<lparr>data = VBool True, err = None\<rparr>" and h = "[]"]
  by (simp add: arrAt_def mapAt_def)





subsection \<open>Set followed by Get\<close>

text \<open>
  C1 says that Get after Set on the same path returns the value that was set. On the
  payload \<^verbatim>\<open>[[]]\<close> (as \<^verbatim>\<open>Parse("[[]]")\<close> builds it), \<^verbatim>\<open>Set("0.1", "x")\<close> returns
  without error for every growth policy, and \<^verbatim>\<open>Get("0.1")\<close> on the result fails with
  "array index out of range: 1": the inner array is grown into a new slice, and
  \<^verbatim>\<open>updateDataReference\<close> stores a new slice only into a parent that is a map.
\<close>

theorem Set_then_Get_lost_update:
  "\<exists>h'. Set g [CArr [VSlice 1 0], CArr []] \<lparr>data = VSlice 0 1, err = None\<rparr> ''0.1'' (VStr ''x'') =
           Return (h', \<lparr>data = VSlice 0 1, err = None\<rparr>, \<lparr>data = VSlice 0 1, err = None\<rparr>) \<and>
        Get h' \<lparr>data = VSlice 0 1, err = None\<rparr> ''0.1'' =
           \<lparr>data = VNil, err = Some (ArrayIndexOutOfRange 1)\<rparr>"
proof -
  let ?h0 = "[CArr [VSlice 1 0], CArr []]"
  let ?j = "\<lparr>data = VSlice 0 1, err = None\<rparr>"
  obtain h1 a1 n1 where gr: "growTo g ?h0 1 0 1 = (h1, a1, n1)"
    by (cases "growTo g ?h0 1 0 1") auto
  from growTo_frame[OF gr] have fr: "2 \<le> length h1" "a1 = 1 \<or> 2 \<le> a1" "h1 ! 0 = ?h0 ! 0"
    by auto
  let ?h2 = "arrStore h1 a1 1 (VStr ''x'')"
  have c0: "?h2 ! 0 = CArr [VSlice 1 0]" and l2: "0 < length ?h2"
    using fr by (auto simp: arrStore_def)
  have g0: "growTo g ?h0 0 1 0 = (?h0, 0, 1)" by (simp add: growTo.simps)
  have s: "Set g ?h0 ?j ''0.1'' (VStr ''x'') = Return (?h2, ?j, ?j)"
    using gr g0
    by (simp add: Set_def setByPath_def rootContainer_def updateDataReference_def nextPath_def arrAt_def)
  have "Get ?h2 ?j ''0.1'' = \<lparr>data = VNil, err = Some (ArrayIndexOutOfRange 1)\<rparr>"
    using c0 l2 by (simp add: Get_def getByPath_def arrAt_def)
  with s show ?thesis by blast
qed

text \<open>
  C3 says that an index that is negative or at least 10000 yields the error "invalid
  array index" without allocation and without a panic, also on a nil root. On a nil
  root \<^verbatim>\<open>setByPath\<close> allocates \<^verbatim>\<open>make([]interface{}, idx+1)\<close> before any check:
  the path \<^verbatim>\<open>-2\<close> panics, and the path \<^verbatim>\<open>10000\<close> replaces the root by an array of
  10001 slots before the error is returned.
\<close>

theorem Set_nil_root_unchecked_index:
  "Set g [] \<lparr>data = VNil, err = None\<rparr> ''-2'' v = Panic \<and>
   Set g [] \<lparr>data = VNil, err = None\<rparr> ''10000'' v =
     Return ([CArr (replicate 10001 VNil)], \<lparr>data = VSlice 0 10001, err = None\<rparr>,
             \<lparr>data = VSlice 0 10001, err = Some (InvalidArrayIndex 10000)\<rparr>)"
proof -
  have a: "Atoi ''-2'' = Some (- 2)" "Atoi ''10000'' = Some 10000"
    by (simp_all add: Atoi_def digitVal_def)
  have w: "wrap64 (- 2 + 1) = - 1" "wrap64 (10000 + 1) = 10001"
    by (simp_all add: wrap64_def)
  show ?thesis
    using a w by (simp add: Set_def setByPath_def rootContainer_def makeSlice_def newSlice_def)
qed


subsection \<open>Structure of payloads and Clone\<close>

lemma tree_induct [case_names Leaf Obj Arr]:
  assumes "\<And>x. P (TLeaf x)"
    and "\<And>kts. (\<And>k t. (k, t) \<in> set kts \<Longrightarrow> P t) \<Longrightarrow> P (TObj kts)"
    and "\<And>ts. (\<And>t. t \<in> set ts \<Longrightarrow> P t) \<Longrightarrow> P (TArr ts)"
  shows "P t"
proof (induction t)
  case (TLeaf x)
  show ?case by (rule assms(1))
next
  case (TObj kts)
  show ?case
  proof (rule assms(2))
    fix k t assume "(k, t) \<in> set kts"
    then show "P t" using TObj[of "(k, t)" t] by simp
  qed
next
  case (TArr ts)
  then show ?case by (intro assms(3))
qed

lemma repFrom_Obj_iff:
  "repFrom L h v (TObj kts) \<longleftrightarrow>
     (\<exists>a. v = VMap a \<and> L \<le> a \<and> isMap h a \<and> distinct (map fst (mapAt h a)) \<and>
          distinct (map fst kts) \<and> set (map fst (mapAt h a)) = set (map fst kts) \<and>
          (\<forall>k t. (k, t) \<in> set kts \<longrightarrow> (\<exists>c. map_of (mapAt h a) k = Some c \<and> repFrom L h c t)))"
proof (cases v)
  case (VMap a)
  have "(\<forall>kt \<in> set kts. case map_of (mapAt h a) (fst kt) of Some c \<Rightarrow> repFrom L h c (snd kt) | None \<Rightarrow> False)
        \<longleftrightarrow> (\<forall>k t. (k, t) \<in> set kts \<longrightarrow> (\<exists>c. map_of (mapAt h a) k = Some c \<and> repFrom L h c t))"
    by (force split: option.splits)
  then show ?thesis using VMap by simp
qed simp_all

lemma repFrom_Arr_iff:
  "repFrom L h v (TArr ts) \<longleftrightarrow>
     (\<exists>a n. v = VSlice a n \<and> L \<le> a \<and> isArr h a \<and> n \<le> length (arrAt h a) \<and>
            list_all2 (repFrom L h) (take n (arrAt h a)) ts)"
  by (cases v) auto

lemma repFrom_mono: "repFrom L h v t \<Longrightarrow> L' \<le> L \<Longrightarrow> repFrom L' h v t"
proof (induction t arbitrary: v rule: tree_induct)
  case (Leaf x)
  then show ?case by simp
next
  case (Obj kts)
  from Obj.prems obtain a where v: "v = VMap a" "L \<le> a" "isMap h a"
    and d: "distinct (map fst (mapAt h a))" "distinct (map fst kts)"
           "set (map fst (mapAt h a)) = set (map fst kts)"
    and c: "\<And>k t. (k, t) \<in> set kts \<Longrightarrow> \<exists>c. map_of (mapAt h a) k = Some c \<and> repFrom L h c t"
    unfolding repFrom_Obj_iff by blast
  have "\<And>k t. (k, t) \<in> set kts \<Longrightarrow> \<exists>c. map_of (mapAt h a) k = Some c \<and> repFrom L' h c t"
  proof -
    fix k t assume kt: "(k, t) \<in> set kts"
    from c[OF kt] obtain c where "map_of (mapAt h a) k = Some c" "repFrom L h c t" by blast
    with Obj.IH[OF kt _ Obj.prems(2)] show "\<exists>c. map_of (mapAt h a) k = Some c \<and> repFrom L' h c t"
      by blast
  qed
  with v d Obj.prems(2) show ?case
    unfolding repFrom_Obj_iff by auto
next
  case (Arr ts)
  from Arr.prems obtain a n where v: "v = VSlice a n" "L \<le> a" "isArr h a" "n \<le> length (arrAt h a)"
    and l: "list_all2 (repFrom L h) (take n (arrAt h a)) ts"
    unfolding repFrom_Arr_iff by blast
  from l have "list_all2 (repFrom L' h) (take n (arrAt h a)) ts"
    by (rule list.rel_mono_strong) (use Arr in auto)
  with v Arr.prems(2) show ?case unfolding repFrom_Arr_iff by auto
qed

text \<open>A structure depends only on the cells from L on.\<close>

lemma repFrom_frame:
  assumes "repFrom L h v t"
    and "\<And>b. L \<le> b \<Longrightarrow> b < length h \<Longrightarrow> b < length h' \<and> h' ! b = h ! b"
  shows "repFrom L h' v t"
  using assms(1)
proof (induction t arbitrary: v rule: tree_induct)
  case (Leaf x)
  then show ?case by simp
next
  case (Obj kts)
  from Obj.prems obtain a where v: "v = VMap a" "L \<le> a" "isMap h a"
    and d: "distinct (map fst (mapAt h a))" "distinct (map fst kts)"
           "set (map fst (mapAt h a)) = set (map fst kts)"
    and c: "\<And>k t. (k, t) \<in> set kts \<Longrightarrow> \<exists>c. map_of (mapAt h a) k = Some c \<and> repFrom L h c t"
    unfolding repFrom_Obj_iff by blast
  from v have al: "a < length h" by (simp add: isMap_def)
  with assms(2)[of a] v have eq: "a < length h'" "h' ! a = h ! a" by auto
  then have m: "mapAt h' a = mapAt h a" "isMap h' a"
    using al v(3) by (auto simp: mapAt_def isMap_def)
  have "\<And>k t. (k, t) \<in> set kts \<Longrightarrow> \<exists>c. map_of (mapAt h' a) k = Some c \<and> repFrom L h' c t"
  proof -
    fix k t assume kt: "(k, t) \<in> set kts"
    from c[OF kt] obtain c where "map_of (mapAt h a) k = Some c" "repFrom L h c t" by blast
    with Obj.IH[OF kt] m(1) show "\<exists>c. map_of (mapAt h' a) k = Some c \<and> repFrom L h' c t"
      by auto
  qed
  with v d m show ?case unfolding repFrom_Obj_iff by auto
next
  case (Arr ts)
  from Arr.prems obtain a n where v: "v = VSlice a n" "L \<le> a" "isArr h a" "n \<le> length (arrAt h a)"
    and l: "list_all2 (repFrom L h) (take n (arrAt h a)) ts"
    unfolding repFrom_Arr_iff by blast
  from v have al: "a < length h" by (simp add: isArr_def)
  with assms(2)[of a] v have eq: "a < length h'" "h' ! a = h ! a" by auto
  then have m: "arrAt h' a = arrAt h a" "isArr h' a"
    using al v(3) by (auto simp: arrAt_def isArr_def)
  from l have "list_all2 (repFrom L h') (take n (arrAt h a)) ts"
    by (rule list.rel_mono_strong) (use Arr.IH in auto)
  with v m show ?case unfolding repFrom_Arr_iff by auto
qed

lemma depth_child_obj: "(k, t) \<in> set kts \<Longrightarrow> depth t < depth (TObj kts)"
proof -
  assume "(k, t) \<in> set kts"
  then have "depth t \<in> insert 0 (set (map (\<lambda>kt. depth (snd kt)) kts))" by force
  then have "depth t \<le> Max (insert 0 (set (map (\<lambda>kt. depth (snd kt)) kts)))"
    by (intro Max_ge) auto
  then show ?thesis by simp
qed

lemma depth_child_arr: "t \<in> set ts \<Longrightarrow> depth t < depth (TArr ts)"
proof -
  assume "t \<in> set ts"
  then have "depth t \<in> insert 0 (set (map depth ts))" by force
  then have "depth t \<le> Max (insert 0 (set (map depth ts)))"
    by (intro Max_ge) auto
  then show ?thesis by simp
qed


lemma rep_extend:
  assumes "rep H v t" and "length H \<le> length hc" and "\<And>b. b < length H \<Longrightarrow> hc ! b = H ! b"
  shows "rep hc v t"
  unfolding rep_def
  by (rule repFrom_frame[OF assms(1)[unfolded rep_def]]) (use assms(2,3) in auto)

lemma cloneElems_spec:
  assumes IH: "\<And>t hc v. t \<in> set ts0 \<Longrightarrow> rep hc v t \<Longrightarrow>
                 \<exists>h' v'. c hc v = Some (h', v') \<and> length hc \<le> length h' \<and>
                         (\<forall>b < length hc. h' ! b = hc ! b) \<and> repFrom (length hc) h' v' t"
  shows "list_all2 (rep H) vs ts \<Longrightarrow> set ts \<subseteq> set ts0 \<Longrightarrow> length H \<le> r \<Longrightarrow> r < length hc \<Longrightarrow>
         (\<forall>b < length H. hc ! b = H ! b) \<Longrightarrow> isArr hc r \<Longrightarrow> i + length vs \<le> length (arrAt hc r) \<Longrightarrow>
         \<exists>h'. cloneElems c hc r i vs = Some h' \<and> length hc \<le> length h' \<and>
              (\<forall>b < length H. h' ! b = H ! b) \<and> isArr h' r \<and>
              length (arrAt h' r) = length (arrAt hc r) \<and>
              take i (arrAt h' r) = take i (arrAt hc r) \<and>
              list_all2 (repFrom (Suc r) h') (take (length vs) (drop i (arrAt h' r))) ts \<and>
              (\<forall>b. r < b \<and> b < length hc \<longrightarrow> h' ! b = hc ! b)"
proof (induction vs arbitrary: hc i ts)
  case Nil
  then show ?case by simp
next
  case (Cons v vs)
  from Cons.prems(1) obtain t ts' where ts: "ts = t # ts'" and rv: "rep H v t"
    and rest: "list_all2 (rep H) vs ts'"
    by (cases ts) auto
  have t0: "t \<in> set ts0" and ts'0: "set ts' \<subseteq> set ts0" using Cons.prems(2) ts by auto
  have "rep hc v t"
    by (rule rep_extend[OF rv]) (use Cons.prems in auto)
  from IH[OF t0 this] obtain h1 v1 where c1: "c hc v = Some (h1, v1)"
    and l1: "length hc \<le> length h1" and f1: "\<forall>b < length hc. h1 ! b = hc ! b"
    and r1: "repFrom (length hc) h1 v1 t" by blast
  let ?h2 = "arrStore h1 r i v1"
  have rl1: "r < length h1" using Cons.prems(4) l1 by simp
  have a1: "arrAt h1 r = arrAt hc r"
    using Cons.prems(4) rl1 f1 by (simp add: arrAt_def)
  have h2: "?h2 = h1[r := CArr ((arrAt hc r)[i := v1])]" by (simp add: arrStore_def a1)
  have len2: "length ?h2 = length h1" by (simp add: h2)
  have arr2: "arrAt ?h2 r = (arrAt hc r)[i := v1]" using rl1 by (simp add: h2)
  have isarr2: "isArr ?h2 r" using rl1 by (simp add: h2 isArr_def)
  have other2: "\<And>b. b \<noteq> r \<Longrightarrow> ?h2 ! b = h1 ! b" by (simp add: h2)
  have "repFrom (Suc r) h1 v1 t"
    by (rule repFrom_mono[OF r1]) (use Cons.prems(4) in simp)
  then have r2: "repFrom (Suc r) ?h2 v1 t"
    by (rule repFrom_frame) (simp add: len2 other2)
  have p5: "\<forall>b < length H. ?h2 ! b = H ! b"
    using Cons.prems(3,4,5) f1 other2 by auto
  have "\<exists>h'. cloneElems c ?h2 r (Suc i) vs = Some h' \<and> length ?h2 \<le> length h' \<and>
              (\<forall>b < length H. h' ! b = H ! b) \<and> isArr h' r \<and>
              length (arrAt h' r) = length (arrAt ?h2 r) \<and>
              take (Suc i) (arrAt h' r) = take (Suc i) (arrAt ?h2 r) \<and>
              list_all2 (repFrom (Suc r) h') (take (length vs) (drop (Suc i) (arrAt h' r))) ts' \<and>
              (\<forall>b. r < b \<and> b < length ?h2 \<longrightarrow> h' ! b = ?h2 ! b)"
    by (rule Cons.IH[OF rest ts'0 Cons.prems(3)]) (use rl1 p5 isarr2 Cons.prems(7) in \<open>auto simp: len2 arr2\<close>)
  then obtain h' where ce: "cloneElems c ?h2 r (Suc i) vs = Some h'"
    and l': "length ?h2 \<le> length h'" and fH: "\<forall>b < length H. h' ! b = H ! b"
    and ia: "isArr h' r" and la: "length (arrAt h' r) = length (arrAt ?h2 r)"
    and tk: "take (Suc i) (arrAt h' r) = take (Suc i) (arrAt ?h2 r)"
    and la2: "list_all2 (repFrom (Suc r) h') (take (length vs) (drop (Suc i) (arrAt h' r))) ts'"
    and fr: "\<forall>b. r < b \<and> b < length ?h2 \<longrightarrow> h' ! b = ?h2 ! b" by blast
  have il: "i < length (arrAt hc r)" using Cons.prems(7) by simp
  have ti: "take i (arrAt h' r) = take i (arrAt hc r)"
  proof -
    have "take i (take (Suc i) (arrAt h' r)) = take i (take (Suc i) (arrAt ?h2 r))"
      using tk by simp
    then show ?thesis by (simp add: arr2 min_def)
  qed
  have ei: "arrAt h' r ! i = v1"
  proof -
    have "take (Suc i) (arrAt h' r) ! i = take (Suc i) (arrAt ?h2 r) ! i" using tk by simp
    then show ?thesis using il by (simp add: arr2)
  qed
  have rv1: "repFrom (Suc r) h' v1 t"
    by (rule repFrom_frame[OF r2]) (use fr l' in auto)
  have il': "i < length (arrAt h' r)" using il la by (simp add: arr2)
  have dr: "drop i (arrAt h' r) = v1 # drop (Suc i) (arrAt h' r)"
    using il' ei by (metis Cons_nth_drop_Suc)
  have "list_all2 (repFrom (Suc r) h') (take (length (v # vs)) (drop i (arrAt h' r))) ts"
    using rv1 la2 by (simp add: dr ts)
  moreover have "cloneElems c hc r i (v # vs) = Some h'" using c1 ce by simp
  moreover have "length hc \<le> length h'" using l1 l' by (simp add: len2)
  moreover have "length (arrAt h' r) = length (arrAt hc r)" using la by (simp add: arr2)
  moreover have "\<forall>b. r < b \<and> b < length hc \<longrightarrow> h' ! b = hc ! b"
    using fr f1 l1 other2 by (auto simp: len2)
  ultimately show ?case using fH ia ti by blast
qed


lemma map_of_update_distinct:
  "map_of (AList.update k v al) = (map_of al)(k \<mapsto> v)"
  by (rule update_conv')

lemma keys_update: "set (map fst (AList.update k v al)) = insert k (set (map fst al))"
  by (induction al) auto

lemma cloneEntries_spec:
  assumes IH: "\<And>k t hc v. (k, t) \<in> set kts0 \<Longrightarrow> rep hc v t \<Longrightarrow>
                 \<exists>h' v'. c hc v = Some (h', v') \<and> length hc \<le> length h' \<and>
                         (\<forall>b < length hc. h' ! b = hc ! b) \<and> repFrom (length hc) h' v' t"
    and dk: "distinct (map fst kts0)"
  shows "distinct (map fst es) \<Longrightarrow>
         (\<forall>k v. (k, v) \<in> set es \<longrightarrow> (\<exists>t. (k, t) \<in> set kts0 \<and> rep H v t)) \<Longrightarrow>
         length H \<le> r \<Longrightarrow> r < length hc \<Longrightarrow> (\<forall>b < length H. hc ! b = H ! b) \<Longrightarrow>
         isMap hc r \<Longrightarrow> distinct (map fst (mapAt hc r)) \<Longrightarrow>
         set (map fst (mapAt hc r)) \<inter> set (map fst es) = {} \<Longrightarrow>
         \<exists>h'. cloneEntries c hc r es = Some h' \<and> length hc \<le> length h' \<and>
              (\<forall>b < length H. h' ! b = H ! b) \<and> isMap h' r \<and>
              distinct (map fst (mapAt h' r)) \<and>
              set (map fst (mapAt h' r)) = set (map fst (mapAt hc r)) \<union> set (map fst es) \<and>
              (\<forall>k c'. map_of (mapAt hc r) k = Some c' \<longrightarrow> map_of (mapAt h' r) k = Some c') \<and>
              (\<forall>k v t. (k, v) \<in> set es \<longrightarrow> (k, t) \<in> set kts0 \<longrightarrow>
                   (\<exists>c'. map_of (mapAt h' r) k = Some c' \<and> repFrom (Suc r) h' c' t)) \<and>
              (\<forall>b. r < b \<and> b < length hc \<longrightarrow> h' ! b = hc ! b)"
proof (induction es arbitrary: hc)
  case Nil
  then show ?case by simp
next
  case (Cons e es)
  obtain k v where e: "e = (k, v)" by (cases e)
  from Cons.prems(2) e obtain t where kt: "(k, t) \<in> set kts0" and rv: "rep H v t" by auto
  have "rep hc v t"
    by (rule rep_extend[OF rv]) (use Cons.prems in auto)
  from IH[OF kt this] obtain h1 v1 where c1: "c hc v = Some (h1, v1)"
    and l1: "length hc \<le> length h1" and f1: "\<forall>b < length hc. h1 ! b = hc ! b"
    and r1: "repFrom (length hc) h1 v1 t" by blast
  let ?h2 = "mapStore h1 r k v1"
  have rl1: "r < length h1" using Cons.prems(4) l1 by simp
  have a1: "mapAt h1 r = mapAt hc r"
    using Cons.prems(4) rl1 f1 by (simp add: mapAt_def)
  have h2: "?h2 = h1[r := CMap (AList.update k v1 (mapAt hc r))]" by (simp add: mapStore_def a1)
  have len2: "length ?h2 = length h1" by (simp add: h2)
  have map2: "mapAt ?h2 r = AList.update k v1 (mapAt hc r)" using rl1 by (simp add: h2)
  have ismap2: "isMap ?h2 r" using rl1 by (simp add: h2 isMap_def)
  have other2: "\<And>b. b \<noteq> r \<Longrightarrow> ?h2 ! b = h1 ! b" by (simp add: h2)
  have "repFrom (Suc r) h1 v1 t"
    by (rule repFrom_mono[OF r1]) (use Cons.prems(4) in simp)
  then have r2: "repFrom (Suc r) ?h2 v1 t"
    by (rule repFrom_frame) (simp add: len2 other2)
  have p5: "\<forall>b < length H. ?h2 ! b = H ! b"
    using Cons.prems(3,4,5) f1 other2 by auto
  have knew: "k \<notin> set (map fst (mapAt hc r))" "k \<notin> set (map fst es)"
    using Cons.prems(1,8) e by auto
  have d2: "distinct (map fst (mapAt ?h2 r))"
    using Cons.prems(7) by (simp add: map2 distinct_update)
  have k2: "set (map fst (mapAt ?h2 r)) = insert k (set (map fst (mapAt hc r)))"
    by (simp only: map2 keys_update)
  have disj2: "set (map fst (mapAt ?h2 r)) \<inter> set (map fst es) = {}"
    using Cons.prems(8) knew(2) unfolding k2 by auto
  have es2: "\<forall>k v. (k, v) \<in> set es \<longrightarrow> (\<exists>t. (k, t) \<in> set kts0 \<and> rep H v t)"
    using Cons.prems(2) by auto
  have des: "distinct (map fst es)" using Cons.prems(1) by simp
  have rl2: "r < length ?h2" using rl1 by (simp add: len2)
  from Cons.IH[OF des es2 Cons.prems(3) rl2 p5 ismap2 d2 disj2]
  obtain h' where ce: "cloneEntries c ?h2 r es = Some h'"
    and l': "length ?h2 \<le> length h'" and fH: "\<forall>b < length H. h' ! b = H ! b"
    and im: "isMap h' r" and dm: "distinct (map fst (mapAt h' r))"
    and km: "set (map fst (mapAt h' r)) = set (map fst (mapAt ?h2 r)) \<union> set (map fst es)"
    and pm: "\<forall>k c'. map_of (mapAt ?h2 r) k = Some c' \<longrightarrow> map_of (mapAt h' r) k = Some c'"
    and rm: "\<forall>k v t. (k, v) \<in> set es \<longrightarrow> (k, t) \<in> set kts0 \<longrightarrow>
                   (\<exists>c'. map_of (mapAt h' r) k = Some c' \<and> repFrom (Suc r) h' c' t)"
    and fr: "\<forall>b. r < b \<and> b < length ?h2 \<longrightarrow> h' ! b = ?h2 ! b" by blast
  have mk: "map_of (mapAt ?h2 r) = (map_of (mapAt hc r))(k \<mapsto> v1)"
    by (simp add: map2 update_conv')
  have rv1: "repFrom (Suc r) h' v1 t"
    by (rule repFrom_frame[OF r2]) (use fr l' in auto)
  have kv1: "map_of (mapAt h' r) k = Some v1" using pm mk by simp
  have old: "\<forall>k' c'. map_of (mapAt hc r) k' = Some c' \<longrightarrow> map_of (mapAt h' r) k' = Some c'"
  proof (intro allI impI)
    fix k' c' assume a: "map_of (mapAt hc r) k' = Some c'"
    then have "k' \<in> set (map fst (mapAt hc r))" by (metis map_of_eq_None_iff option.distinct(1) set_map)
    with knew(1) have "k' \<noteq> k" by auto
    with a mk have "map_of (mapAt ?h2 r) k' = Some c'" by simp
    with pm show "map_of (mapAt h' r) k' = Some c'" by blast
  qed
  have all: "\<forall>k' v' t'. (k', v') \<in> set (e # es) \<longrightarrow> (k', t') \<in> set kts0 \<longrightarrow>
                   (\<exists>c'. map_of (mapAt h' r) k' = Some c' \<and> repFrom (Suc r) h' c' t')"
  proof (intro allI impI)
    fix k' v' t' assume m: "(k', v') \<in> set (e # es)" and m0: "(k', t') \<in> set kts0"
    show "\<exists>c'. map_of (mapAt h' r) k' = Some c' \<and> repFrom (Suc r) h' c' t'"
    proof (cases "(k', v') = e")
      case True
      then have "k' = k" using e by simp
      with m0 kt dk have "t' = t" by (metis eq_key_imp_eq_value)
      with kv1 rv1 \<open>k' = k\<close> show ?thesis by simp
    next
      case False
      with m have "(k', v') \<in> set es" by simp
      with rm m0 show ?thesis by blast
    qed
  qed
  have "cloneEntries c hc r (e # es) = Some h'" using c1 ce e by simp
  moreover have "length hc \<le> length h'" using l1 l' by (simp add: len2)
  moreover have "set (map fst (mapAt h' r)) = set (map fst (mapAt hc r)) \<union> set (map fst (e # es))"
    using km k2 e by auto
  moreover have "\<forall>b. r < b \<and> b < length hc \<longrightarrow> h' ! b = hc ! b"
    using fr f1 l1 other2 by (auto simp: len2)
  ultimately show ?case using fH im dm old all by blast
qed


lemma mapAt_new: "mapAt (h @ [CMap m]) (length h) = m"
  by (simp add: mapAt_def)

lemma deepClone_spec:
  "rep h v t \<Longrightarrow> depth t \<le> f \<Longrightarrow>
   \<exists>h' v'. deepClone f h v = Some (h', v') \<and> length h \<le> length h' \<and>
           (\<forall>b < length h. h' ! b = h ! b) \<and> repFrom (length h) h' v' t"
proof (induction t arbitrary: f h v rule: tree_induct)
  case (Leaf x)
  from Leaf.prems(2) obtain f' where f: "f = Suc f'" by (cases f) auto
  from Leaf.prems(1) have "v = x" "scalar x" by (auto simp: rep_def)
  then show ?case unfolding f by (cases x) (auto simp: scalar_def)
next
  case (Obj kts)
  from Obj.prems(2) obtain f' where f: "f = Suc f'" by (cases f) auto
  from Obj.prems(1) obtain a where v: "v = VMap a" "isMap h a"
    and d: "distinct (map fst (mapAt h a))" "distinct (map fst kts)"
           "set (map fst (mapAt h a)) = set (map fst kts)"
    and c: "\<And>k t. (k, t) \<in> set kts \<Longrightarrow> \<exists>c. map_of (mapAt h a) k = Some c \<and> rep h c t"
    unfolding rep_def repFrom_Obj_iff by blast
  let ?h0 = "h @ [CMap []]"
  let ?r = "length h"
  have IH: "\<And>k t hc v. (k, t) \<in> set kts \<Longrightarrow> rep hc v t \<Longrightarrow>
                 \<exists>h' v'. deepClone f' hc v = Some (h', v') \<and> length hc \<le> length h' \<and>
                         (\<forall>b < length hc. h' ! b = hc ! b) \<and> repFrom (length hc) h' v' t"
  proof -
    fix k t hc v assume kt: "(k, t) \<in> set kts" and r: "rep hc v t"
    have "depth t \<le> f'" using depth_child_obj[OF kt] Obj.prems(2) f by linarith
    from Obj.IH[OF kt r this]
    show "\<exists>h' v'. deepClone f' hc v = Some (h', v') \<and> length hc \<le> length h' \<and>
                         (\<forall>b < length hc. h' ! b = hc ! b) \<and> repFrom (length hc) h' v' t" .
  qed
  have es: "\<forall>k c. (k, c) \<in> set (mapAt h a) \<longrightarrow> (\<exists>t. (k, t) \<in> set kts \<and> rep h c t)"
  proof (intro allI impI)
    fix k c0 assume m: "(k, c0) \<in> set (mapAt h a)"
    then have "k \<in> set (map fst kts)" using d(3) by force
    then obtain t where kt: "(k, t) \<in> set kts" by auto
    from c[OF kt] obtain c1 where "map_of (mapAt h a) k = Some c1" "rep h c1 t" by blast
    moreover have "map_of (mapAt h a) k = Some c0" using m d(1) by simp
    ultimately show "\<exists>t. (k, t) \<in> set kts \<and> rep h c0 t" using kt by auto
  qed
  have "\<exists>h'. cloneEntries (deepClone f') ?h0 ?r (mapAt h a) = Some h' \<and> length ?h0 \<le> length h' \<and>
              (\<forall>b < length h. h' ! b = h ! b) \<and> isMap h' ?r \<and>
              distinct (map fst (mapAt h' ?r)) \<and>
              set (map fst (mapAt h' ?r)) = set (map fst (mapAt ?h0 ?r)) \<union> set (map fst (mapAt h a)) \<and>
              (\<forall>k c'. map_of (mapAt ?h0 ?r) k = Some c' \<longrightarrow> map_of (mapAt h' ?r) k = Some c') \<and>
              (\<forall>k v t. (k, v) \<in> set (mapAt h a) \<longrightarrow> (k, t) \<in> set kts \<longrightarrow>
                   (\<exists>c'. map_of (mapAt h' ?r) k = Some c' \<and> repFrom (Suc ?r) h' c' t)) \<and>
              (\<forall>b. ?r < b \<and> b < length ?h0 \<longrightarrow> h' ! b = ?h0 ! b)"
    apply (rule cloneEntries_spec[where ?kts0.0 = kts and H = h])
            apply (rule IH, assumption, assumption)
           apply (rule d(2))
          apply (rule d(1))
         apply (rule es)
        apply simp
       apply simp
      apply (simp add: nth_append)
     apply (simp add: isMap_def)
     apply (simp add: mapAt_new)
    apply (simp add: mapAt_new)
    done
  then obtain h' where ce: "cloneEntries (deepClone f') ?h0 ?r (mapAt h a) = Some h'"
    and l': "length ?h0 \<le> length h'" and fH: "\<forall>b < length h. h' ! b = h ! b"
    and im: "isMap h' ?r" and dm: "distinct (map fst (mapAt h' ?r))"
    and km: "set (map fst (mapAt h' ?r)) = set (map fst (mapAt ?h0 ?r)) \<union> set (map fst (mapAt h a))"
    and rm: "\<forall>k v t. (k, v) \<in> set (mapAt h a) \<longrightarrow> (k, t) \<in> set kts \<longrightarrow>
                   (\<exists>c'. map_of (mapAt h' ?r) k = Some c' \<and> repFrom (Suc ?r) h' c' t)"
    by blast
  have keys: "set (map fst (mapAt h' ?r)) = set (map fst kts)"
    using km d(3) by (simp add: mapAt_new)
  have ch: "\<And>k t. (k, t) \<in> set kts \<Longrightarrow> \<exists>c'. map_of (mapAt h' ?r) k = Some c' \<and> repFrom ?r h' c' t"
  proof -
    fix k t assume kt: "(k, t) \<in> set kts"
    from c[OF kt] obtain c0 where "map_of (mapAt h a) k = Some c0" by blast
    then have "(k, c0) \<in> set (mapAt h a)" by (rule map_of_SomeD)
    with rm kt obtain c' where "map_of (mapAt h' ?r) k = Some c'" "repFrom (Suc ?r) h' c' t" by blast
    then show "\<exists>c'. map_of (mapAt h' ?r) k = Some c' \<and> repFrom ?r h' c' t"
      using repFrom_mono[of "Suc ?r" h' c' t ?r] by auto
  qed
  have "repFrom ?r h' (VMap ?r) (TObj kts)"
    unfolding repFrom_Obj_iff using im dm d(2) keys ch by auto
  moreover have "deepClone f h v = Some (h', VMap ?r)"
    using ce by (simp add: f v newMap_def)
  ultimately show ?case using l' fH by auto
next
  case (Arr ts)
  from Arr.prems(2) obtain f' where f: "f = Suc f'" by (cases f) auto
  from Arr.prems(1) obtain a n where v: "v = VSlice a n" "isArr h a" "n \<le> length (arrAt h a)"
    and l: "list_all2 (rep h) (take n (arrAt h a)) ts"
    unfolding rep_def repFrom_Arr_iff by blast
  from l have n: "length ts = n" using v(3) by (auto dest: list_all2_lengthD)
  let ?h0 = "h @ [CArr (replicate n VNil)]"
  let ?r = "length h"
  have IH: "\<And>t hc v. t \<in> set ts \<Longrightarrow> rep hc v t \<Longrightarrow>
                 \<exists>h' v'. deepClone f' hc v = Some (h', v') \<and> length hc \<le> length h' \<and>
                         (\<forall>b < length hc. h' ! b = hc ! b) \<and> repFrom (length hc) h' v' t"
  proof -
    fix t hc v assume kt: "t \<in> set ts" and r: "rep hc v t"
    have "depth t \<le> f'" using depth_child_arr[OF kt] Arr.prems(2) f by linarith
    from Arr.IH[OF kt r this]
    show "\<exists>h' v'. deepClone f' hc v = Some (h', v') \<and> length hc \<le> length h' \<and>
                         (\<forall>b < length hc. h' ! b = hc ! b) \<and> repFrom (length hc) h' v' t" .
  qed
  have "\<exists>h'. cloneElems (deepClone f') ?h0 ?r 0 (take n (arrAt h a)) = Some h' \<and> length ?h0 \<le> length h' \<and>
              (\<forall>b < length h. h' ! b = h ! b) \<and> isArr h' ?r \<and>
              length (arrAt h' ?r) = length (arrAt ?h0 ?r) \<and>
              take 0 (arrAt h' ?r) = take 0 (arrAt ?h0 ?r) \<and>
              list_all2 (repFrom (Suc ?r) h') (take (length (take n (arrAt h a))) (drop 0 (arrAt h' ?r))) ts \<and>
              (\<forall>b. ?r < b \<and> b < length ?h0 \<longrightarrow> h' ! b = ?h0 ! b)"
    apply (rule cloneElems_spec[where ?ts0.0 = ts and H = h])
           apply (rule IH, assumption, assumption)
          apply (rule l)
         apply simp
        apply simp
       apply simp
      apply (simp add: nth_append)
     apply (simp add: isArr_def)
    using v(3) apply simp
    done
  then obtain h' where ce: "cloneElems (deepClone f') ?h0 ?r 0 (take n (arrAt h a)) = Some h'"
    and l': "length ?h0 \<le> length h'" and fH: "\<forall>b < length h. h' ! b = h ! b"
    and ia: "isArr h' ?r" and la: "length (arrAt h' ?r) = n"
    and rl: "list_all2 (repFrom (Suc ?r) h') (take n (arrAt h' ?r)) ts"
    using v(3) by auto
  from rl have "list_all2 (repFrom ?r h') (take n (arrAt h' ?r)) ts"
    by (rule list_all2_mono) (auto intro: repFrom_mono)
  then have "repFrom ?r h' (VSlice ?r n) (TArr ts)"
    unfolding repFrom_Arr_iff using ia la by auto
  moreover have "deepClone f h v = Some (h', VSlice ?r n)"
    using ce by (simp add: f v newSlice_def)
  ultimately show ?case using l' fH by auto
qed


lemma scalar_simps [simp]:
  "\<not> scalar (VMap a)" "\<not> scalar (VSlice a n)" "scalar VNil" "scalar (VBool b)"
  "scalar (VInt i)" "scalar (VInt64 i)" "scalar (VFloat x)" "scalar (VStr s)"
  by (simp_all add: scalar_def)

lemma rep_map_child:
  assumes "rep h (VMap a) t" and "map_of (mapAt h a) k = Some c"
  shows "\<exists>t'. rep h c t'"
proof -
  from assms(1) obtain kts where t: "t = TObj kts" by (cases t) (auto simp: rep_def)
  from assms(1) have ks: "set (map fst (mapAt h a)) = set (map fst kts)"
    and ch: "\<And>k t. (k, t) \<in> set kts \<Longrightarrow> \<exists>c. map_of (mapAt h a) k = Some c \<and> rep h c t"
    unfolding t rep_def repFrom_Obj_iff by auto
  from assms(2) have "k \<in> set (map fst (mapAt h a))"
    by (metis map_of_eq_None_iff option.distinct(1) set_map)
  with ks obtain t' where "(k, t') \<in> set kts" by auto
  from ch[OF this] assms(2) show ?thesis by auto
qed

lemma rep_slice_child:
  assumes "rep h (VSlice a n) t" and "i < n"
  shows "\<exists>t'. rep h (arrAt h a ! i) t'"
proof -
  from assms(1) obtain ts where t: "t = TArr ts" by (cases t) (auto simp: rep_def)
  from assms(1) have n: "n \<le> length (arrAt h a)"
    and l: "list_all2 (rep h) (take n (arrAt h a)) ts"
    unfolding t rep_def repFrom_Arr_iff by auto
  have "rep h (take n (arrAt h a) ! i) (ts ! i)"
    using list_all2_nthD[OF l, of i] assms(2) n by simp
  with assms(2) show ?thesis by auto
qed

lemma rep_cells:
  assumes "rep h v t" and "length h \<le> length h'" and "\<And>b. b < length h \<Longrightarrow> h' ! b = h ! b"
  shows "(\<forall>a. v = VMap a \<longrightarrow> mapAt h' a = mapAt h a) \<and>
         (\<forall>a n. v = VSlice a n \<longrightarrow> arrAt h' a = arrAt h a)"
proof (intro conjI allI impI)
  fix a assume v: "v = VMap a"
  with assms(1) have "isMap h a" by (cases t) (auto simp: rep_def)
  then have "a < length h" by (simp add: isMap_def)
  with assms(2,3) show "mapAt h' a = mapAt h a" by (simp add: mapAt_def)
next
  fix a n assume v: "v = VSlice a n"
  with assms(1) have "isArr h a" by (cases t) (auto simp: rep_def)
  then have "a < length h" by (simp add: isArr_def)
  with assms(2,3) show "arrAt h' a = arrAt h a" by (simp add: arrAt_def)
qed

lemma getParts_frame:
  assumes "length h \<le> length h'" and "\<And>b. b < length h \<Longrightarrow> h' ! b = h ! b"
  shows "rep h v t \<Longrightarrow> getParts h' path v parts = getParts h path v parts"
proof (induction parts arbitrary: v t)
  case Nil
  show ?case by simp
next
  case (Cons part rest)
  from rep_cells[OF Cons.prems assms]
  have m: "\<And>a. v = VMap a \<Longrightarrow> mapAt h' a = mapAt h a"
    and s: "\<And>a n. v = VSlice a n \<Longrightarrow> arrAt h' a = arrAt h a" by auto
  show ?case
  proof (cases v)
    case (VMap a)
    show ?thesis
    proof (cases "map_of (mapAt h a) part")
      case None
      then show ?thesis using VMap m by (simp split: option.splits)
    next
      case (Some c)
      from rep_map_child[OF Cons.prems[unfolded VMap] Some] obtain t' where "rep h c t'" ..
      from Cons.IH[OF this] show ?thesis using VMap m Some by (simp split: option.splits)
    qed
  next
    case (VSlice a n)
    show ?thesis
    proof (cases "Atoi part")
      case None
      then show ?thesis using VSlice by simp
    next
      case (Some idx)
      show ?thesis
      proof (cases "idx < 0 \<or> idx \<ge> int n")
        case True
        then show ?thesis using VSlice Some by simp
      next
        case False
        then have "nat idx < n" by auto
        from rep_slice_child[OF Cons.prems[unfolded VSlice] this] obtain t'
          where "rep h (arrAt h a ! nat idx) t'" ..
        from Cons.IH[OF this] show ?thesis using VSlice Some False s by simp
      qed
    qed
  qed (simp_all split: option.splits)
qed

lemma getByPath_frame:
  assumes "rep h (data j) t" and "length h \<le> length h'" and "\<And>b. b < length h \<Longrightarrow> h' ! b = h ! b"
  shows "getByPath h' j p = getByPath h j p"
  using getParts_frame[OF assms(2,3) assms(1)] by (simp add: getByPath_def)

lemma Atoi_x [simp]: "Atoi ''x'' = None"
  by (simp add: Atoi_def digitVal_def)

lemma Set_x_frame:
  assumes "err c = None"
  shows "\<exists>h'' c' r. Set g h' c ''x'' x = Return (h'', c', r) \<and> length h' \<le> length h'' \<and>
           (\<forall>b < length h'. (\<forall>a. data c = VMap a \<longrightarrow> b \<noteq> a) \<longrightarrow> h'' ! b = h' ! b)"
  using assms
  by (cases "data c")
     (auto simp: Set_def setByPath_def rootContainer_def newMap_def mapStore_def nth_append)


lemma take_prefix_nth:
  "length h \<le> length h' \<Longrightarrow> take (length h) h' = h \<longleftrightarrow> (\<forall>b < length h. h' ! b = h ! b)"
  by (auto simp: list_eq_iff_nth_eq)

text \<open>
  C9. A receiver without error whose payload has a structure \<open>t\<close> in the store (a finite
  tree of maps and arrays over scalars) is cloned, for a sufficient recursion bound,
  into a handle without error whose payload has the same structure, and cloning leaves
  every existing cell as it was. The two share no storage: in every store that agrees
  with the original store on its cells, whatever else changed, the receiver keeps its
  structure and every Get and Has on it answers as before; in every store that agrees
  on the cells that Clone allocated, the clone keeps its structure. In particular
  \<^verbatim>\<open>Set("x", v)\<close> on the clone returns and leaves \<^verbatim>\<open>Has("x")\<close> of the receiver unchanged.
\<close>

theorem Clone_independent:
  assumes "err j = None" and "rep h (data j) t"
  shows "\<exists>f h' c. Clone f h j = Some (h', c) \<and> err c = None \<and> rep h' (data c) t \<and>
           length h \<le> length h' \<and> take (length h) h' = h \<and>
           (\<forall>h''. length h \<le> length h'' \<and> take (length h) h'' = h \<longrightarrow>
                 rep h'' (data j) t \<and> (\<forall>p. Get h'' j p = Get h j p \<and> Has h'' j p = Has h j p)) \<and>
           (\<forall>h''. length h' \<le> length h'' \<and> (\<forall>b. length h \<le> b \<and> b < length h' \<longrightarrow> h'' ! b = h' ! b) \<longrightarrow>
                 rep h'' (data c) t) \<and>
           (\<forall>g x. \<exists>h'' c' r. Set g h' c ''x'' x = Return (h'', c', r) \<and>
                 Has h'' j ''x'' = Has h j ''x'')"
proof -
  from deepClone_spec[OF assms(2) order_refl]
  obtain h' v' where dc: "deepClone (depth t) h (data j) = Some (h', v')"
    and len: "length h \<le> length h'" and old: "\<forall>b < length h. h' ! b = h ! b"
    and rf: "repFrom (length h) h' v' t" by blast
  let ?c = "\<lparr>data = v', err = None\<rparr>"
  have cl: "Clone (depth t) h j = Some (h', ?c)"
    using assms(1) dc by (simp add: Clone_def)
  have r': "rep h' (data ?c) t"
    using repFrom_mono[OF rf, of 0] by (simp add: rep_def)
  have pre: "take (length h) h' = h"
    using old len by (simp add: take_prefix_nth)
  have orig: "\<And>h''. length h \<le> length h'' \<Longrightarrow> take (length h) h'' = h \<Longrightarrow>
                 rep h'' (data j) t \<and> (\<forall>p. Get h'' j p = Get h j p \<and> Has h'' j p = Has h j p)"
  proof -
    fix h'' assume l: "length h \<le> length h''" and t: "take (length h) h'' = h"
    then have ag: "\<And>b. b < length h \<Longrightarrow> h'' ! b = h ! b" by (simp add: take_prefix_nth)
    have "rep h'' (data j) t" by (rule rep_extend[OF assms(2) l ag])
    moreover have "\<And>p. getByPath h'' j p = getByPath h j p"
      by (rule getByPath_frame[OF assms(2) l ag])
    ultimately show "rep h'' (data j) t \<and> (\<forall>p. Get h'' j p = Get h j p \<and> Has h'' j p = Has h j p)"
      by (simp add: Get_def Has_def)
  qed
  have clone: "\<And>h''. length h' \<le> length h'' \<Longrightarrow>
                 (\<forall>b. length h \<le> b \<and> b < length h' \<longrightarrow> h'' ! b = h' ! b) \<Longrightarrow> rep h'' (data ?c) t"
  proof -
    fix h'' assume l: "length h' \<le> length h''"
      and ag: "\<forall>b. length h \<le> b \<and> b < length h' \<longrightarrow> h'' ! b = h' ! b"
    have "repFrom (length h) h'' v' t"
      by (rule repFrom_frame[OF rf]) (use l ag in auto)
    then show "rep h'' (data ?c) t"
      using repFrom_mono[of "length h" h'' v' t 0] by (simp add: rep_def)
  qed
  have fresh: "\<And>a. v' = VMap a \<Longrightarrow> length h \<le> a"
    using rf by (cases t) (auto simp: repFrom_Obj_iff)
  have ex: "\<And>g x. \<exists>h'' c' r. Set g h' ?c ''x'' x = Return (h'', c', r) \<and>
                 Has h'' j ''x'' = Has h j ''x''"
  proof -
    fix g x
    have "err ?c = None" by simp
    from Set_x_frame[OF this, of g h' x]
    obtain h'' c' r where s: "Set g h' ?c ''x'' x = Return (h'', c', r)"
      and l: "length h' \<le> length h''"
      and fr: "\<forall>b < length h'. (\<forall>a. data ?c = VMap a \<longrightarrow> b \<noteq> a) \<longrightarrow> h'' ! b = h' ! b"
      by blast
    have ag: "\<And>b. b < length h \<Longrightarrow> h'' ! b = h ! b"
    proof -
      fix b assume b: "b < length h"
      then have "\<forall>a. data ?c = VMap a \<longrightarrow> b \<noteq> a" using fresh by auto
      with fr b len have "h'' ! b = h' ! b" by auto
      with old b show "h'' ! b = h ! b" by simp
    qed
    have "length h \<le> length h''" using len l by simp
    from getByPath_frame[OF assms(2) this ag, of "''x''"]
    have "Has h'' j ''x'' = Has h j ''x''" by (simp add: Has_def)
    with s show "\<exists>h'' c' r. Set g h' ?c ''x'' x = Return (h'', c', r) \<and>
                 Has h'' j ''x'' = Has h j ''x''" by blast
  qed
  have c1: "\<forall>h''. length h \<le> length h'' \<and> take (length h) h'' = h \<longrightarrow>
                 rep h'' (data j) t \<and> (\<forall>p. Get h'' j p = Get h j p \<and> Has h'' j p = Has h j p)"
    using orig by blast
  have c2: "\<forall>h''. length h' \<le> length h'' \<and> (\<forall>b. length h \<le> b \<and> b < length h' \<longrightarrow> h'' ! b = h' ! b) \<longrightarrow>
                 rep h'' (data ?c) t"
    using clone by blast
  have c3: "\<forall>g x. \<exists>h'' c' r. Set g h' ?c ''x'' x = Return (h'', c', r) \<and>
                 Has h'' j ''x'' = Has h j ''x''"
    using ex by blast
  have e: "err ?c = None" by simp
  show ?thesis
    by (intro exI[of _ "depth t"] exI[of _ h'] exI[of _ ?c] conjI)
       (rule cl e r' len pre c1 c2 c3)+
qed

theorem Clone_independent_witness:
  "\<exists>f h' c. Clone f [CMap [(''name'', VStr ''original''), (''tags'', VSlice 1 1)], CArr [VInt 25]]
               \<lparr>data = VMap 0, err = None\<rparr> = Some (h', c) \<and>
     rep h' (data c) (TObj [(''name'', TLeaf (VStr ''original'')), (''tags'', TArr [TLeaf (VInt 25)])]) \<and>
     take 2 h' = [CMap [(''name'', VStr ''original''), (''tags'', VSlice 1 1)], CArr [VInt 25]] \<and>
     (\<forall>g x. \<exists>h'' c' r. Set g h' c ''x'' x = Return (h'', c', r) \<and>
        Has h'' \<lparr>data = VMap 0, err = None\<rparr> ''x'' =
        Has [CMap [(''name'', VStr ''original''), (''tags'', VSlice 1 1)], CArr [VInt 25]]
          \<lparr>data = VMap 0, err = None\<rparr> ''x'')"
proof -
  let ?H = "[CMap [(''name'', VStr ''original''), (''tags'', VSlice 1 1)], CArr [VInt 25]]"
  let ?J = "\<lparr>data = VMap 0, err = None\<rparr>"
  let ?T = "TObj [(''name'', TLeaf (VStr ''original'')), (''tags'', TArr [TLeaf (VInt 25)])]"
  have e: "err ?J = None" by simp
  have r: "rep ?H (data ?J) ?T"
    by (simp add: rep_def isMap_def isArr_def mapAt_def arrAt_def)
  have l: "length ?H = 2" by simp
  from Clone_independent[OF e r]
  obtain f h' c where a: "Clone f ?H ?J = Some (h', c)" and b: "rep h' (data c) ?T"
    and c: "take (length ?H) h' = ?H"
    and d: "\<forall>g x. \<exists>h'' c' r. Set g h' c ''x'' x = Return (h'', c', r) \<and>
                 Has h'' ?J ''x'' = Has ?H ?J ''x''"
    by (elim exE conjE)
  from c have c': "take 2 h' = ?H" unfolding l .
  show ?thesis
    by (intro exI[of _ f] exI[of _ h'] exI[of _ c] conjI) (rule a b c' d)+
qed

subsection \<open>Flatten and Unflatten\<close>

subsubsection \<open>Paths and numerals\<close>

lemma splitDot_nonempty [simp]: "splitDot s \<noteq> []"
  by (induction s) (auto split: list.splits)

lemma splitDot_dotFree: "dotFree s \<Longrightarrow> splitDot s = [s]"
  by (induction s) (auto simp: dotFree_def)

lemma splitDot_append_dot: "dotFree s \<Longrightarrow> splitDot (s @ CHR ''.'' # r) = s # splitDot r"
  by (induction s) (auto simp: dotFree_def split: list.splits)

lemma splitDot_joinDot:
  "parts \<noteq> [] \<Longrightarrow> \<forall>p \<in> set parts. dotFree p \<Longrightarrow> splitDot (joinDot parts) = parts"
proof (induction parts rule: joinDot.induct)
  case 1
  then show ?case by simp
next
  case (2 p)
  then show ?case by (simp add: splitDot_dotFree)
next
  case (3 p v va)
  then show ?case by (simp add: splitDot_append_dot)
qed

lemma joinDot_snoc: "q \<noteq> [] \<Longrightarrow> joinDot (q @ [k]) = joinDot q @ ''.'' @ k"
  by (induction q rule: joinDot.induct) auto

lemma joinDot_nonempty: "q \<noteq> [] \<Longrightarrow> hd q \<noteq> [] \<Longrightarrow> joinDot q \<noteq> []"
  by (induction q rule: joinDot.induct) auto

lemma nextPath_joinDot:
  assumes "q = [] \<or> hd q \<noteq> []"
  shows "nextPath (joinDot q) k = joinDot (q @ [k])"
proof (cases "q = []")
  case True
  then show ?thesis by (simp add: nextPath_def)
next
  case False
  with assms have "joinDot q \<noteq> []" by (simp add: joinDot_nonempty)
  then show ?thesis using False by (simp add: nextPath_def joinDot_snoc)
qed

lemma joinKey_nextPath: "joinKey prefix k = nextPath prefix k"
  by (simp add: joinKey_def nextPath_def)

lemma joinDot_inj:
  assumes "p \<noteq> []" "q \<noteq> []" "\<forall>s \<in> set p. dotFree s" "\<forall>s \<in> set q. dotFree s" "joinDot p = joinDot q"
  shows "p = q"
proof -
  have "p = splitDot (joinDot p)" by (rule splitDot_joinDot[OF assms(1,3), symmetric])
  also have "\<dots> = splitDot (joinDot q)" by (simp only: assms(5))
  also have "\<dots> = q" by (rule splitDot_joinDot[OF assms(2,4)])
  finally show ?thesis .
qed

lemma digitVal_digitChar: "d < 10 \<Longrightarrow> digitVal (digitChar d) = Some d"
  by (simp add: digitVal_def digitChar_def Let_def)

lemma digits_append:
  "digits acc (xs @ ys) = (case digits acc xs of None \<Rightarrow> None | Some a \<Rightarrow> digits a ys)"
  by (induction xs arbitrary: acc) (auto split: option.splits)

lemma digits_Itoa: "digits 0 (Itoa n) = Some n"
proof (induction n rule: Itoa.induct)
  case (1 n)
  show ?case
  proof (cases "n < 10")
    case True
    then show ?thesis by (simp add: Itoa.simps[of n] digitVal_digitChar)
  next
    case False
    with 1 have "digits 0 (Itoa (n div 10)) = Some (n div 10)" by simp
    moreover have "n mod 10 < 10" by simp
    ultimately show ?thesis
      using False by (simp add: Itoa.simps[of n] digits_append digitVal_digitChar)
  qed
qed

lemma of_char_digitChar: "d < 10 \<Longrightarrow> of_char (digitChar d) = 48 + d"
  by (simp add: digitChar_def)

lemma digitChar_props:
  assumes "d < 10"
  shows "digitChar d \<noteq> CHR ''.'' \<and> digitChar d \<noteq> CHR ''-'' \<and> digitChar d \<noteq> CHR ''+''"
proof -
  have "(of_char (digitChar d) :: nat) \<ge> 48" using of_char_digitChar[OF assms] by simp
  moreover have "(of_char CHR ''.'' :: nat) = 46" "(of_char CHR ''-'' :: nat) = 45"
    "(of_char CHR ''+'' :: nat) = 43" by simp_all
  ultimately show ?thesis by auto
qed

lemma Itoa_chars: "c \<in> set (Itoa n) \<Longrightarrow> c \<noteq> CHR ''.'' \<and> c \<noteq> CHR ''-'' \<and> c \<noteq> CHR ''+''"
proof (induction n rule: Itoa.induct)
  case (1 n)
  show ?case
  proof (cases "n < 10")
    case True
    with "1.prems" show ?thesis by (simp add: Itoa.simps[of n] digitChar_props)
  next
    case False
    have "n mod 10 < 10" by simp
    with False 1 show ?thesis
      by (auto simp: Itoa.simps[of n] digitChar_props)
  qed
qed

lemma Itoa_nonempty [simp]: "Itoa n \<noteq> []"
  by (subst Itoa.simps) simp

lemma Itoa_dotFree [simp]: "dotFree (Itoa n)"
  using Itoa_chars by (auto simp: dotFree_def)

lemma Atoi_digits:
  assumes c: "c \<noteq> CHR ''-''" "c \<noteq> CHR ''+''" and d: "digits 0 (c # r) = Some n"
    and n: "int n < 2 ^ 63"
  shows "Atoi (c # r) = Some (int n)"
proof -
  have "- (2 ^ 63) \<le> int n" by (rule order_trans[of _ 0]) simp_all
  with n show ?thesis
    unfolding Atoi_def Let_def list.case using c
    by (simp only: d if_False if_True option.case simp_thms list.distinct)
qed

lemma Atoi_Itoa: "n < 2 ^ 63 \<Longrightarrow> Atoi (Itoa n) = Some (int n)"
proof -
  assume n: "n < 2 ^ 63"
  obtain c r where s: "Itoa n = c # r" by (cases "Itoa n") auto
  then have "c \<in> set (Itoa n)" by simp
  from Itoa_chars[OF this] have c: "c \<noteq> CHR ''-''" "c \<noteq> CHR ''+''" by auto
  have d: "digits 0 (c # r) = Some n" using digits_Itoa[of n] s by simp
  have "int n < 2 ^ 63" using n by simp
  from Atoi_digits[OF c d this] show ?thesis by (simp only: s)
qed

lemma Itoa_inj:
  assumes "i < 2 ^ 63" "k < 2 ^ 63" "Itoa i = Itoa k"
  shows "i = k"
proof -
  have "Some (int i) = Atoi (Itoa i)" by (rule Atoi_Itoa[OF assms(1), symmetric])
  also have "\<dots> = Atoi (Itoa k)" by (simp only: assms(3))
  also have "\<dots> = Some (int k)" by (rule Atoi_Itoa[OF assms(2)])
  finally show ?thesis by simp
qed

subsubsection \<open>Positions of a tree\<close>

lemma Atoi_Itoa_small: "n < 10000 \<Longrightarrow> Atoi (Itoa n) = Some (int n)"
  by (rule Atoi_Itoa) simp

lemma Itoa_inj_small: "i < 10000 \<Longrightarrow> k < 10000 \<Longrightarrow> Itoa i = Itoa k \<Longrightarrow> i = k"
  by (rule Itoa_inj) simp_all

lemma sub_append:
  "sub t (p @ q) = (case sub t p of Some t' \<Rightarrow> sub t' q | None \<Rightarrow> None)"
proof (induction p arbitrary: t)
  case Nil
  show ?case by simp
next
  case (Cons k p)
  show ?case by (cases t) (auto simp: Cons split: option.splits)
qed

lemma sub_Obj_child:
  "distinct (map fst kts) \<Longrightarrow> (k, t) \<in> set kts \<Longrightarrow> sub (TObj kts) (k # p) = sub t p"
  by simp

lemma sub_Arr_child:
  assumes "i < length ts" and "length ts \<le> 10000"
  shows "sub (TArr ts) (Itoa i # p) = sub (ts ! i) p"
proof -
  from assms have "i < 10000" by simp
  from Atoi_Itoa_small[OF this] assms(1) show ?thesis by simp
qed

lemma sub_Obj_cases:
  assumes "sub (TObj kts) (k # p) = Some t'"
  obtains t where "(k, t) \<in> set kts" "sub t p = Some t'"
  using assms by (auto split: option.splits dest: map_of_SomeD)

lemma sub_Arr_cases:
  assumes "sub (TArr ts) (k # p) = Some t'"
  obtains i where "i < length ts" "k = Itoa i" "Atoi k = Some (int i)" "sub (ts ! i) p = Some t'"
proof -
  from assms obtain j where j: "Atoi k = Some j" "0 \<le> j" "nat j < length ts" "k = Itoa (nat j)"
    "sub (ts ! nat j) p = Some t'"
    by (auto split: option.splits if_splits)
  then have "Atoi k = Some (int (nat j))" by simp
  with j that[of "nat j"] show thesis by blast
qed

lemma okTree_sub: "okTree t \<Longrightarrow> sub t p = Some t' \<Longrightarrow> okTree t'"
proof (induction p arbitrary: t)
  case Nil
  then show ?case by simp
next
  case (Cons k p)
  show ?case
  proof (cases t)
    case (TLeaf x)
    with Cons.prems show ?thesis by simp
  next
    case (TObj kts)
    from Cons.prems(2)[unfolded TObj] obtain c where "(k, c) \<in> set kts" "sub c p = Some t'"
      by (rule sub_Obj_cases)
    moreover from this Cons.prems(1) TObj have "okTree c" by auto
    ultimately show ?thesis using Cons.IH by blast
  next
    case (TArr ts)
    from Cons.prems(2)[unfolded TArr] obtain i where "i < length ts" "sub (ts ! i) p = Some t'"
      by (rule sub_Arr_cases)
    moreover from this Cons.prems(1) TArr have "okTree (ts ! i)" by auto
    ultimately show ?thesis using Cons.IH by blast
  qed
qed

lemma sub_dotFree: "okTree t \<Longrightarrow> sub t p = Some t' \<Longrightarrow> \<forall>s \<in> set p. dotFree s"
proof (induction p arbitrary: t)
  case Nil
  then show ?case by simp
next
  case (Cons k p)
  show ?case
  proof (cases t)
    case (TLeaf x)
    with Cons.prems show ?thesis by simp
  next
    case (TObj kts)
    from Cons.prems(2)[unfolded TObj] obtain c where c: "(k, c) \<in> set kts" "sub c p = Some t'"
      by (rule sub_Obj_cases)
    with Cons.prems(1) TObj have "okTree c" "dotFree k" by (auto simp: okKey_def)
    with c Cons.IH show ?thesis by auto
  next
    case (TArr ts)
    from Cons.prems(2)[unfolded TArr] obtain i where i: "i < length ts" "k = Itoa i" "sub (ts ! i) p = Some t'"
      by (rule sub_Arr_cases)
    with Cons.prems(1) TArr have "okTree (ts ! i)" by auto
    with i Cons.IH show ?thesis by auto
  qed
qed

lemma sub_leaf_exists: "okTree t \<Longrightarrow> \<exists>p x. sub t p = Some (TLeaf x)"
proof (induction t rule: tree_induct)
  case (Leaf x)
  have "sub (TLeaf x) [] = Some (TLeaf x)" by simp
  then show ?case by blast
next
  case (Obj kts)
  then obtain k t where kt: "(k, t) \<in> set kts" by (cases kts) auto
  with Obj.prems have "okTree t" "distinct (map fst kts)" by auto
  with Obj.IH[OF kt] obtain p x where "sub t p = Some (TLeaf x)" by blast
  with kt \<open>distinct (map fst kts)\<close> have "sub (TObj kts) (k # p) = Some (TLeaf x)" by simp
  then show ?case by blast
next
  case (Arr ts)
  then have l: "0 < length ts" "length ts \<le> 10000" by auto
  then have m: "ts ! 0 \<in> set ts" by simp
  with Arr.prems have "okTree (ts ! 0)" by auto
  with Arr.IH[OF m] obtain p x where "sub (ts ! 0) p = Some (TLeaf x)" by blast
  with l have "sub (TArr ts) (Itoa 0 # p) = Some (TLeaf x)" by (simp only: sub_Arr_child)
  then show ?case by blast
qed

lemma update_fresh: "k \<notin> set (map fst al) \<Longrightarrow> AList.update k v al = al @ [(k, v)]"
  by (induction al) auto

lemma leafEntries_Leaf: "leafEntries q (TLeaf x) = {(joinDot q, x)}"
proof -
  have "\<And>p y. sub (TLeaf x) p = Some (TLeaf y) \<longleftrightarrow> p = [] \<and> y = x"
    by (case_tac p) auto
  then show ?thesis by (auto simp: leafEntries_def)
qed

lemma leafEntries_Obj:
  assumes "distinct (map fst kts)"
  shows "leafEntries q (TObj kts) = (\<Union>(k, t) \<in> set kts. leafEntries (q @ [k]) t)"
proof (intro set_eqI iffI)
  fix e assume "e \<in> leafEntries q (TObj kts)"
  then obtain p x where e: "e = (joinDot (q @ p), x)" and s: "sub (TObj kts) p = Some (TLeaf x)"
    by (auto simp: leafEntries_def)
  from s obtain k p' where p: "p = k # p'" by (cases p) auto
  from s[unfolded p] obtain t where kt: "(k, t) \<in> set kts" and s': "sub t p' = Some (TLeaf x)"
    by (rule sub_Obj_cases)
  have "e \<in> leafEntries (q @ [k]) t" using e p s' by (auto simp: leafEntries_def)
  with kt show "e \<in> (\<Union>(k, t) \<in> set kts. leafEntries (q @ [k]) t)" by blast
next
  fix e assume "e \<in> (\<Union>(k, t) \<in> set kts. leafEntries (q @ [k]) t)"
  then obtain k t p x where kt: "(k, t) \<in> set kts" and e: "e = (joinDot ((q @ [k]) @ p), x)"
    and s: "sub t p = Some (TLeaf x)" by (auto simp: leafEntries_def)
  from kt assms s have "sub (TObj kts) (k # p) = Some (TLeaf x)" by simp
  with e show "e \<in> leafEntries q (TObj kts)" unfolding leafEntries_def by force
qed

lemma leafEntries_Arr:
  assumes "length ts \<le> 10000"
  shows "leafEntries q (TArr ts) = (\<Union>i \<in> {..<length ts}. leafEntries (q @ [Itoa i]) (ts ! i))"
proof (intro set_eqI iffI)
  fix e assume "e \<in> leafEntries q (TArr ts)"
  then obtain p x where e: "e = (joinDot (q @ p), x)" and s: "sub (TArr ts) p = Some (TLeaf x)"
    by (auto simp: leafEntries_def)
  from s obtain k p' where p: "p = k # p'" by (cases p) auto
  from s[unfolded p] obtain i where i: "i < length ts" "k = Itoa i" and s': "sub (ts ! i) p' = Some (TLeaf x)"
    by (rule sub_Arr_cases)
  have "e \<in> leafEntries (q @ [Itoa i]) (ts ! i)" using e p s' i by (auto simp: leafEntries_def)
  with i show "e \<in> (\<Union>i \<in> {..<length ts}. leafEntries (q @ [Itoa i]) (ts ! i))" by blast
next
  fix e assume "e \<in> (\<Union>i \<in> {..<length ts}. leafEntries (q @ [Itoa i]) (ts ! i))"
  then obtain i p x where i: "i < length ts" and e: "e = (joinDot ((q @ [Itoa i]) @ p), x)"
    and s: "sub (ts ! i) p = Some (TLeaf x)" by (auto simp: leafEntries_def)
  from i assms s have "sub (TArr ts) (Itoa i # p) = Some (TLeaf x)" by (simp only: sub_Arr_child)
  with e show "e \<in> leafEntries q (TArr ts)" unfolding leafEntries_def by force
qed

subsubsection \<open>Flatten\<close>

lemma leafEntries_disjoint:
  assumes "okTree t" "okTree t'" "dotFree k" "dotFree k'" "\<forall>s \<in> set q. dotFree s" "k \<noteq> k'"
  shows "fst ` leafEntries (q @ [k]) t \<inter> fst ` leafEntries (q @ [k']) t' = {}"
proof (rule ccontr)
  assume "fst ` leafEntries (q @ [k]) t \<inter> fst ` leafEntries (q @ [k']) t' \<noteq> {}"
  then obtain p x p' x' where s: "sub t p = Some (TLeaf x)" "sub t' p' = Some (TLeaf x')"
    and j: "joinDot ((q @ [k]) @ p) = joinDot ((q @ [k']) @ p')"
    by (auto simp: leafEntries_def)
  from sub_dotFree[OF assms(1) s(1)] sub_dotFree[OF assms(2) s(2)]
  have d: "\<forall>s \<in> set ((q @ [k]) @ p). dotFree s" "\<forall>s \<in> set ((q @ [k']) @ p'). dotFree s"
    using assms(3,4,5) by auto
  have "(q @ [k]) @ p = (q @ [k']) @ p'"
    by (rule joinDot_inj[OF _ _ d j]) simp_all
  with assms(6) show False by simp
qed

lemma flattenEntries_spec:
  assumes child: "\<And>k c result. (k, c) \<in> set es0 \<Longrightarrow> fst ` E k \<inter> set (map fst result) = {} \<Longrightarrow>
                    \<exists>ents. rc c (joinKey prefix k) result = Some (result @ ents) \<and>
                           set ents = E k \<and> distinct (map fst ents)"
    and disj: "\<And>k k'. k \<in> fst ` set es0 \<Longrightarrow> k' \<in> fst ` set es0 \<Longrightarrow> k \<noteq> k' \<Longrightarrow> fst ` E k \<inter> fst ` E k' = {}"
  shows "set es \<subseteq> set es0 \<Longrightarrow> distinct (map fst es) \<Longrightarrow>
         (\<Union>k \<in> fst ` set es. fst ` E k) \<inter> set (map fst result) = {} \<Longrightarrow>
         \<exists>ents. flattenEntries rc prefix es result = Some (result @ ents) \<and>
                set ents = (\<Union>k \<in> fst ` set es. E k) \<and> distinct (map fst ents)"
proof (induction es arbitrary: result)
  case Nil
  then show ?case by simp
next
  case (Cons e es)
  obtain k c where e: "e = (k, c)" by (cases e)
  have in0: "(k, c) \<in> set es0" using Cons.prems(1) e by simp
  have "fst ` E k \<inter> set (map fst result) = {}" using Cons.prems(3) e by auto
  from child[OF in0 this] obtain ents1 where r1: "rc c (joinKey prefix k) result = Some (result @ ents1)"
    and s1: "set ents1 = E k" and d1: "distinct (map fst ents1)" by blast
  have knot: "k \<notin> fst ` set es" using Cons.prems(2) e by auto
  have dk: "\<And>k'. k' \<in> fst ` set es \<Longrightarrow> fst ` E k \<inter> fst ` E k' = {}"
  proof -
    fix k' assume k': "k' \<in> fst ` set es"
    with knot have "k \<noteq> k'" by auto
    moreover have "k \<in> fst ` set es0" using in0 by force
    moreover have "k' \<in> fst ` set es0" using k' Cons.prems(1) by auto
    ultimately show "fst ` E k \<inter> fst ` E k' = {}" by (rule disj[rotated 2])
  qed
  have pre: "(\<Union>k \<in> fst ` set es. fst ` E k) \<inter> set (map fst (result @ ents1)) = {}"
  proof -
    have "(\<Union>k \<in> fst ` set es. fst ` E k) \<inter> set (map fst result) = {}"
      using Cons.prems(3) by auto
    moreover have "(\<Union>k \<in> fst ` set es. fst ` E k) \<inter> fst ` E k = {}" using dk by blast
    moreover have "set (map fst (result @ ents1)) = set (map fst result) \<union> fst ` E k"
      using s1 by auto
    ultimately show ?thesis by (simp only: Int_Un_distrib) simp
  qed
  have sub: "set es \<subseteq> set es0" using Cons.prems(1) by simp
  have des: "distinct (map fst es)" using Cons.prems(2) by simp
  from Cons.IH[OF sub des pre] obtain ents2
    where r2: "flattenEntries rc prefix es (result @ ents1) = Some ((result @ ents1) @ ents2)"
    and s2: "set ents2 = (\<Union>k \<in> fst ` set es. E k)" and d2: "distinct (map fst ents2)" by blast
  have "fst ` set ents1 \<inter> fst ` set ents2 = {}"
    unfolding s1 s2 using dk by auto
  then have "distinct (map fst (ents1 @ ents2))" using d1 d2 by simp
  moreover have "flattenEntries rc prefix (e # es) result = Some (result @ (ents1 @ ents2))"
    using r1 r2 e by simp
  moreover have "set (ents1 @ ents2) = (\<Union>k \<in> fst ` set (e # es). E k)"
    using s1 s2 e by auto
  ultimately show ?case by blast
qed

lemma flattenElems_spec:
  assumes child: "\<And>j result. j < length vs0 \<Longrightarrow> fst ` E j \<inter> set (map fst result) = {} \<Longrightarrow>
                    \<exists>ents. rc (vs0 ! j) (joinKey prefix (Itoa j)) result = Some (result @ ents) \<and>
                           set ents = E j \<and> distinct (map fst ents)"
    and disj: "\<And>j j'. j < length vs0 \<Longrightarrow> j' < length vs0 \<Longrightarrow> j \<noteq> j' \<Longrightarrow> fst ` E j \<inter> fst ` E j' = {}"
  shows "vs = drop i vs0 \<Longrightarrow>
         (\<Union>j \<in> {i..<length vs0}. fst ` E j) \<inter> set (map fst result) = {} \<Longrightarrow>
         \<exists>ents. flattenElems rc prefix i vs result = Some (result @ ents) \<and>
                set ents = (\<Union>j \<in> {i..<length vs0}. E j) \<and> distinct (map fst ents)"
proof (induction vs arbitrary: i result)
  case Nil
  then have "length vs0 \<le> i" by simp
  then show ?case by simp
next
  case (Cons v vs)
  from Cons.prems(1) have i: "i < length vs0" by (cases "i < length vs0") auto
  with Cons.prems(1) have v: "v = vs0 ! i" and vs: "vs = drop (Suc i) vs0"
    by (simp_all add: Cons_nth_drop_Suc[symmetric])
  have split: "{i..<length vs0} = insert i {Suc i..<length vs0}" using i by auto
  have "fst ` E i \<inter> set (map fst result) = {}" using Cons.prems(2) unfolding split by auto
  from child[OF i this] obtain ents1
    where r1: "rc (vs0 ! i) (joinKey prefix (Itoa i)) result = Some (result @ ents1)"
    and s1: "set ents1 = E i" and d1: "distinct (map fst ents1)" by blast
  have dk: "\<And>j. j \<in> {Suc i..<length vs0} \<Longrightarrow> fst ` E i \<inter> fst ` E j = {}"
    using disj[OF i] by auto
  have pre: "(\<Union>j \<in> {Suc i..<length vs0}. fst ` E j) \<inter> set (map fst (result @ ents1)) = {}"
  proof -
    have "(\<Union>j \<in> {Suc i..<length vs0}. fst ` E j) \<inter> set (map fst result) = {}"
      using Cons.prems(2) unfolding split by auto
    moreover have "(\<Union>j \<in> {Suc i..<length vs0}. fst ` E j) \<inter> fst ` E i = {}" using dk by blast
    moreover have "set (map fst (result @ ents1)) = set (map fst result) \<union> fst ` E i"
      using s1 by auto
    ultimately show ?thesis by (simp only: Int_Un_distrib) simp
  qed
  from Cons.IH[OF vs pre] obtain ents2
    where r2: "flattenElems rc prefix (Suc i) vs (result @ ents1) = Some ((result @ ents1) @ ents2)"
    and s2: "set ents2 = (\<Union>j \<in> {Suc i..<length vs0}. E j)" and d2: "distinct (map fst ents2)" by blast
  have "(\<Union>j \<in> {Suc i..<length vs0}. fst ` E j) \<inter> fst ` E i = {}" using dk by blast
  then have "fst ` set ents1 \<inter> fst ` set ents2 = {}"
    unfolding s1 s2 image_UN by blast
  then have "distinct (map fst (ents1 @ ents2))" using d1 d2 by simp
  moreover have "flattenElems rc prefix i (v # vs) result = Some (result @ (ents1 @ ents2))"
    using r1 r2 v by simp
  moreover have "set (ents1 @ ents2) = (\<Union>j \<in> {i..<length vs0}. E j)"
    using s1 s2 unfolding split by auto
  ultimately show ?case by blast
qed

lemma child_path_ok:
  assumes "q = [] \<or> hd q \<noteq> []" and "q = [] \<longrightarrow> k \<noteq> []"
  shows "q @ [k] = [] \<or> hd (q @ [k]) \<noteq> []"
  using assms by (cases q) auto

lemma flattenRecursive_spec:
  "rep h v t \<Longrightarrow> okTree t \<Longrightarrow> depth t \<le> f \<Longrightarrow> \<forall>s \<in> set q. dotFree s \<Longrightarrow>
   q = [] \<or> hd q \<noteq> [] \<Longrightarrow> (q = [] \<longrightarrow> rootKeysOk t) \<Longrightarrow>
   fst ` leafEntries q t \<inter> set (map fst result) = {} \<Longrightarrow>
   \<exists>ents. flattenRecursive f h v (joinDot q) result = Some (result @ ents) \<and>
          set ents = leafEntries q t \<and> distinct (map fst ents)"
proof (induction t arbitrary: f v q result rule: tree_induct)
  case (Leaf x)
  from Leaf.prems(3) obtain f' where f: "f = Suc f'" by (cases f) auto
  from Leaf.prems(1) have v: "v = x" "scalar x" by (auto simp: rep_def)
  have "joinDot q \<notin> set (map fst result)"
    using Leaf.prems(7) by (simp add: leafEntries_Leaf)
  then have u: "AList.update (joinDot q) x result = result @ [(joinDot q, x)]"
    by (rule update_fresh)
  have "flattenRecursive f h v (joinDot q) result = Some (AList.update (joinDot q) x result)"
    using v unfolding f by (cases x) simp_all
  with u show ?case by (simp add: leafEntries_Leaf)
next
  case (Obj kts)
  from Obj.prems(3) obtain f' where f: "f = Suc f'" by (cases f) auto
  from Obj.prems(1) obtain a where v: "v = VMap a"
    and d: "distinct (map fst (mapAt h a))" "distinct (map fst kts)"
           "set (map fst (mapAt h a)) = set (map fst kts)"
    and c: "\<And>k t. (k, t) \<in> set kts \<Longrightarrow> \<exists>c. map_of (mapAt h a) k = Some c \<and> rep h c t"
    unfolding rep_def repFrom_Obj_iff by blast
  from Obj.prems(2) have ok: "\<And>k t. (k, t) \<in> set kts \<Longrightarrow> okKey k \<and> okTree t" by auto
  define E where "E k = leafEntries (q @ [k]) (the (map_of kts k))" for k
  have Ekt: "\<And>k t. (k, t) \<in> set kts \<Longrightarrow> E k = leafEntries (q @ [k]) t"
    using d(2) by (simp add: E_def)
  have keys: "fst ` set (mapAt h a) = fst ` set kts" using d(3) by simp
  have child: "\<And>k c result. (k, c) \<in> set (mapAt h a) \<Longrightarrow> fst ` E k \<inter> set (map fst result) = {} \<Longrightarrow>
                    \<exists>ents. flattenRecursive f' h c (joinKey (joinDot q) k) result = Some (result @ ents) \<and>
                           set ents = E k \<and> distinct (map fst ents)"
  proof -
    fix k c0 and result :: "(string \<times> val) list"
    assume m: "(k, c0) \<in> set (mapAt h a)" and dj: "fst ` E k \<inter> set (map fst result) = {}"
    from m keys have "k \<in> fst ` set kts" by force
    then obtain t where kt: "(k, t) \<in> set kts" by auto
    from c[OF kt] obtain c1 where "map_of (mapAt h a) k = Some c1" "rep h c1 t" by blast
    moreover have "map_of (mapAt h a) k = Some c0" using m d(1) by simp
    ultimately have r: "rep h c0 t" by simp
    have dt: "depth t \<le> f'" using depth_child_obj[OF kt] Obj.prems(3) f by linarith
    have kne: "q = [] \<longrightarrow> k \<noteq> []"
      using Obj.prems(6) kt by (auto simp: rootKeysOk_def)
    have p1: "\<forall>s \<in> set (q @ [k]). dotFree s" using Obj.prems(4) ok[OF kt] by (simp add: okKey_def)
    have p2: "q @ [k] = [] \<or> hd (q @ [k]) \<noteq> []" by (rule child_path_ok[OF Obj.prems(5) kne])
    have p3: "q @ [k] = [] \<longrightarrow> rootKeysOk t" by simp
    have p4: "fst ` leafEntries (q @ [k]) t \<inter> set (map fst result) = {}" using dj Ekt[OF kt] by simp
    have jk: "joinKey (joinDot q) k = joinDot (q @ [k])"
      by (simp only: joinKey_nextPath nextPath_joinDot[OF Obj.prems(5)])
    have okt: "okTree t" using ok[OF kt] by simp
    have "\<exists>ents. flattenRecursive f' h c0 (joinDot (q @ [k])) result = Some (result @ ents) \<and>
                 set ents = leafEntries (q @ [k]) t \<and> distinct (map fst ents)"
      apply (rule Obj.IH[OF kt r])
           apply (rule okt)
          apply (rule dt)
         apply (rule p1)
        apply (rule p2)
       apply (rule p3)
      apply (rule p4)
      done
    then show "\<exists>ents. flattenRecursive f' h c0 (joinKey (joinDot q) k) result = Some (result @ ents) \<and>
                           set ents = E k \<and> distinct (map fst ents)"
      by (simp only: jk Ekt[OF kt])
  qed
  have disj: "\<And>k k'. k \<in> fst ` set (mapAt h a) \<Longrightarrow> k' \<in> fst ` set (mapAt h a) \<Longrightarrow> k \<noteq> k' \<Longrightarrow>
                 fst ` E k \<inter> fst ` E k' = {}"
  proof -
    fix k k' assume "k \<in> fst ` set (mapAt h a)" "k' \<in> fst ` set (mapAt h a)" and ne: "k \<noteq> k'"
    with keys obtain t t' where kt: "(k, t) \<in> set kts" "(k', t') \<in> set kts" by force
    have "fst ` leafEntries (q @ [k]) t \<inter> fst ` leafEntries (q @ [k']) t' = {}"
      by (rule leafEntries_disjoint) (use ok[OF kt(1)] ok[OF kt(2)] Obj.prems(4) ne in \<open>auto simp: okKey_def\<close>)
    then show "fst ` E k \<inter> fst ` E k' = {}" by (simp add: Ekt[OF kt(1)] Ekt[OF kt(2)])
  qed
  have un: "(\<Union>k \<in> fst ` set (mapAt h a). E k) = leafEntries q (TObj kts)"
  proof -
    have "(\<Union>k \<in> fst ` set kts. E k) = (\<Union>(k, t) \<in> set kts. leafEntries (q @ [k]) t)"
      using Ekt by force
    then show ?thesis by (simp only: keys leafEntries_Obj[OF d(2)])
  qed
  have pre: "(\<Union>k \<in> fst ` set (mapAt h a). fst ` E k) \<inter> set (map fst result) = {}"
  proof -
    have "(\<Union>k \<in> fst ` set (mapAt h a). fst ` E k) = fst ` (\<Union>k \<in> fst ` set (mapAt h a). E k)"
      by (simp only: image_UN)
    then show ?thesis using Obj.prems(7) by (simp only: un)
  qed
  from flattenEntries_spec[where rc = "flattenRecursive f' h" and ?es0.0 = "mapAt h a" and E = E
        and prefix = "joinDot q" and es = "mapAt h a" and result = result, OF child disj _ d(1) pre]
  obtain ents where "flattenEntries (flattenRecursive f' h) (joinDot q) (mapAt h a) result = Some (result @ ents)"
    and "set ents = (\<Union>k \<in> fst ` set (mapAt h a). E k)" and "distinct (map fst ents)" by auto
  then show ?case unfolding un by (simp add: f v)
next
  case (Arr ts)
  from Arr.prems(3) obtain f' where f: "f = Suc f'" by (cases f) auto
  from Arr.prems(1) obtain a n where v: "v = VSlice a n" "n \<le> length (arrAt h a)"
    and l: "list_all2 (rep h) (take n (arrAt h a)) ts"
    unfolding rep_def repFrom_Arr_iff by blast
  from l have n: "length ts = n" using v(2) by (auto dest: list_all2_lengthD)
  from Arr.prems(2) have ok: "\<And>t. t \<in> set ts \<Longrightarrow> okTree t" and len: "length ts \<le> 10000" by auto
  let ?vs = "take n (arrAt h a)"
  have lvs: "length ?vs = n" using v(2) by simp
  define E where "E j = leafEntries (q @ [Itoa j]) (ts ! j)" for j
  have child: "\<And>j result. j < length ?vs \<Longrightarrow> fst ` E j \<inter> set (map fst result) = {} \<Longrightarrow>
                    \<exists>ents. flattenRecursive f' h (?vs ! j) (joinKey (joinDot q) (Itoa j)) result = Some (result @ ents) \<and>
                           set ents = E j \<and> distinct (map fst ents)"
  proof -
    fix j and result :: "(string \<times> val) list"
    assume j: "j < length ?vs" and dj: "fst ` E j \<inter> set (map fst result) = {}"
    from j lvs n have jt: "j < length ts" by simp
    then have mem: "ts ! j \<in> set ts" by simp
    have r: "rep h (?vs ! j) (ts ! j)" using list_all2_nthD[OF l j] .
    have dt: "depth (ts ! j) \<le> f'" using depth_child_arr[OF mem] Arr.prems(3) f by linarith
    have p1: "\<forall>s \<in> set (q @ [Itoa j]). dotFree s" using Arr.prems(4) by simp
    have p2: "q @ [Itoa j] = [] \<or> hd (q @ [Itoa j]) \<noteq> []"
      by (rule child_path_ok[OF Arr.prems(5)]) simp
    have p3: "q @ [Itoa j] = [] \<longrightarrow> rootKeysOk (ts ! j)" by simp
    have p4: "fst ` leafEntries (q @ [Itoa j]) (ts ! j) \<inter> set (map fst result) = {}"
      using dj by (simp add: E_def)
    have jk: "joinKey (joinDot q) (Itoa j) = joinDot (q @ [Itoa j])"
      by (simp only: joinKey_nextPath nextPath_joinDot[OF Arr.prems(5)])
    have "\<exists>ents. flattenRecursive f' h (?vs ! j) (joinDot (q @ [Itoa j])) result = Some (result @ ents) \<and>
                 set ents = leafEntries (q @ [Itoa j]) (ts ! j) \<and> distinct (map fst ents)"
      apply (rule Arr.IH[OF mem r])
           apply (rule ok[OF mem])
          apply (rule dt)
         apply (rule p1)
        apply (rule p2)
       apply (rule p3)
      apply (rule p4)
      done
    then show "\<exists>ents. flattenRecursive f' h (?vs ! j) (joinKey (joinDot q) (Itoa j)) result = Some (result @ ents) \<and>
                           set ents = E j \<and> distinct (map fst ents)"
      by (simp only: jk E_def)
  qed
  have disj: "\<And>j j'. j < length ?vs \<Longrightarrow> j' < length ?vs \<Longrightarrow> j \<noteq> j' \<Longrightarrow> fst ` E j \<inter> fst ` E j' = {}"
  proof -
    fix j j' assume j: "j < length ?vs" "j' < length ?vs" and ne: "j \<noteq> j'"
    with lvs n len have b: "j < length ts" "j' < length ts" "j < 10000" "j' < 10000" by simp_all
    have "Itoa j \<noteq> Itoa j'" using Itoa_inj_small[OF b(3,4)] ne by blast
    then show "fst ` E j \<inter> fst ` E j' = {}"
      unfolding E_def
      by (intro leafEntries_disjoint) (use b ok Arr.prems(4) in auto)
  qed
  have un: "(\<Union>j \<in> {0..<length ?vs}. E j) = leafEntries q (TArr ts)"
    unfolding leafEntries_Arr[OF len] E_def lvs n by (simp add: atLeast0LessThan)
  have pre: "(\<Union>j \<in> {0..<length ?vs}. fst ` E j) \<inter> set (map fst result) = {}"
  proof -
    have "(\<Union>j \<in> {0..<length ?vs}. fst ` E j) = fst ` (\<Union>j \<in> {0..<length ?vs}. E j)"
      by (simp only: image_UN)
    then show ?thesis using Arr.prems(7) by (simp only: un)
  qed
  have dr: "?vs = drop 0 ?vs" by simp
  from flattenElems_spec[where rc = "flattenRecursive f' h" and ?vs0.0 = ?vs and E = E
        and prefix = "joinDot q" and vs = ?vs and i = 0 and result = result, OF child disj dr pre]
  obtain ents where "flattenElems (flattenRecursive f' h) (joinDot q) 0 ?vs result = Some (result @ ents)"
    and "set ents = (\<Union>j \<in> {0..<length ?vs}. E j)" and "distinct (map fst ents)" by auto
  then show ?case unfolding un by (simp add: f v)
qed

subsubsection \<open>The store while Unflatten runs\<close>

lemma nodeOk_Leaf: "sub t0 p = Some (TLeaf x) \<Longrightarrow> nodeOk L t0 h pv T p \<longleftrightarrow> pv p = x"
  by (simp add: nodeOk_def)

lemma nodeOk_Obj:
  "sub t0 p = Some (TObj kts) \<Longrightarrow>
   nodeOk L t0 h pv T p \<longleftrightarrow>
     (\<exists>a. pv p = VMap a \<and> L \<le> a \<and> isMap h a \<and> distinct (map fst (mapAt h a)) \<and>
          (\<forall>k. map_of (mapAt h a) k = (if p @ [k] \<in> T then Some (pv (p @ [k])) else None)))"
  by (simp add: nodeOk_def)

lemma nodeOk_Arr:
  "sub t0 p = Some (TArr ts) \<Longrightarrow>
   nodeOk L t0 h pv T p \<longleftrightarrow>
     (\<exists>a n. pv p = VSlice a n \<and> L \<le> a \<and> isArr h a \<and> n \<le> length (arrAt h a) \<and>
            n \<le> length ts \<and> (\<forall>i < length ts. p @ [Itoa i] \<in> T \<longrightarrow> i < n) \<and>
            (\<forall>i < n. arrAt h a ! i = (if p @ [Itoa i] \<in> T then pv (p @ [Itoa i]) else VNil)))"
  by (simp add: nodeOk_def)

lemma nodeOk_sub: "nodeOk L t0 h pv T p \<Longrightarrow> sub t0 p \<noteq> None"
  by (cases "sub t0 p") (simp_all add: nodeOk_def)

lemma okTree_leaf_scalar: "okTree t0 \<Longrightarrow> sub t0 p = Some (TLeaf x) \<Longrightarrow> scalar x"
  using okTree_sub by fastforce

lemma scalar_addrOf: "scalar x \<Longrightarrow> addrOf x = None"
  by (cases x) (auto simp: scalar_def)

lemma nodeOk_addr:
  assumes "nodeOk L t0 h pv T p" and "okTree t0" and "addrOf (pv p) = Some a"
  shows "a < length h \<and> L \<le> a"
proof (cases "sub t0 p")
  case None
  with assms(1) show ?thesis by (simp add: nodeOk_def)
next
  case (Some t)
  show ?thesis
  proof (cases t)
    case (TLeaf x)
    with Some assms(1) have "pv p = x" by (simp add: nodeOk_Leaf)
    moreover have "scalar x" using okTree_leaf_scalar[OF assms(2)] Some TLeaf by simp
    ultimately show ?thesis using assms(3) by (simp add: scalar_addrOf)
  next
    case (TObj kts)
    with Some assms(1,3) show ?thesis by (auto simp: nodeOk_Obj isMap_def)
  next
    case (TArr ts)
    with Some assms(1,3) show ?thesis by (auto simp: nodeOk_Arr isArr_def)
  qed
qed

text \<open>A node stays in order when its own cell, its value and its children stay as they are.\<close>

lemma nodeOk_frame:
  assumes ok: "nodeOk L t0 h pv T p"
    and v: "pv' p = pv p"
    and cell: "\<And>a. addrOf (pv p) = Some a \<Longrightarrow> a < length h \<Longrightarrow> a < length h' \<and> h' ! a = h ! a"
    and mem: "\<And>k. p @ [k] \<in> T' \<longleftrightarrow> p @ [k] \<in> T"
    and ch: "\<And>k. p @ [k] \<in> T \<Longrightarrow> pv' (p @ [k]) = pv (p @ [k])"
  shows "nodeOk L t0 h' pv' T' p"
proof (cases "sub t0 p")
  case None
  with ok show ?thesis by (simp add: nodeOk_def)
next
  case (Some t)
  show ?thesis
  proof (cases t)
    case (TLeaf x)
    with Some ok v show ?thesis by (simp add: nodeOk_Leaf)
  next
    case (TObj kts)
    with Some ok obtain a where a: "pv p = VMap a" "L \<le> a" "isMap h a" "distinct (map fst (mapAt h a))"
      and m: "\<And>k. map_of (mapAt h a) k = (if p @ [k] \<in> T then Some (pv (p @ [k])) else None)"
      by (auto simp: nodeOk_Obj)
    from a(3) have al: "a < length h" by (simp add: isMap_def)
    from cell[of a] a(1) al have c: "a < length h'" "h' ! a = h ! a" by auto
    then have e: "mapAt h' a = mapAt h a" "isMap h' a"
      using al a(3) by (auto simp: mapAt_def isMap_def)
    have "\<And>k. map_of (mapAt h' a) k = (if p @ [k] \<in> T' then Some (pv' (p @ [k])) else None)"
      using m mem ch by (simp add: e(1))
    with a e v show ?thesis unfolding nodeOk_Obj[OF Some[unfolded TObj]] by auto
  next
    case (TArr ts)
    with Some ok obtain a n where a: "pv p = VSlice a n" "L \<le> a" "isArr h a" "n \<le> length (arrAt h a)"
        "n \<le> length ts" "\<forall>i < length ts. p @ [Itoa i] \<in> T \<longrightarrow> i < n"
      and m: "\<And>i. i < n \<Longrightarrow> arrAt h a ! i = (if p @ [Itoa i] \<in> T then pv (p @ [Itoa i]) else VNil)"
      by (auto simp: nodeOk_Arr)
    from a(3) have al: "a < length h" by (simp add: isArr_def)
    from cell[of a] a(1) al have c: "a < length h'" "h' ! a = h ! a" by auto
    then have e: "arrAt h' a = arrAt h a" "isArr h' a"
      using al a(3) by (auto simp: arrAt_def isArr_def)
    have "\<And>i. i < n \<Longrightarrow> arrAt h' a ! i = (if p @ [Itoa i] \<in> T' then pv' (p @ [Itoa i]) else VNil)"
      using m mem ch by (simp add: e(1))
    with a e v mem show ?thesis unfolding nodeOk_Arr[OF Some[unfolded TArr]] by auto
  qed
qed

lemma built_nodeOk: "built L t0 h pv T \<Longrightarrow> p \<in> T \<Longrightarrow> nodeOk L t0 h pv T p"
  by (simp add: built_def)

lemma built_parent: "built L t0 h pv T \<Longrightarrow> p @ [k] \<in> T \<Longrightarrow> p \<in> T"
  by (auto simp: built_def)

lemma built_inj:
  "built L t0 h pv T \<Longrightarrow> p \<in> T \<Longrightarrow> q \<in> T \<Longrightarrow> addrOf (pv p) = Some a \<Longrightarrow> addrOf (pv q) = Some a \<Longrightarrow> p = q"
  by (auto simp: built_def)

lemma built_prefix: "built L t0 h pv T \<Longrightarrow> p @ q \<in> T \<Longrightarrow> p \<in> T"
proof (induction q rule: rev_induct)
  case Nil
  then show ?case by simp
next
  case (snoc k q)
  from snoc.prems(2) have "(p @ q) @ [k] \<in> T" by simp
  from built_parent[OF snoc.prems(1) this] snoc.IH snoc.prems(1) show ?case by simp
qed

lemma mapStore_length [simp]: "length (mapStore h a k v) = length h"
  by (simp add: mapStore_def)

lemma mapStore_other: "b \<noteq> a \<Longrightarrow> mapStore h a k v ! b = h ! b"
  by (simp add: mapStore_def)

lemma mapStore_same: "a < length h \<Longrightarrow> mapAt (mapStore h a k v) a = AList.update k v (mapAt h a)"
  by (simp add: mapStore_def)

lemma isMap_mapStore: "a < length h \<Longrightarrow> isMap (mapStore h a k v) a"
  by (simp add: mapStore_def isMap_def)

lemma arrStore_length [simp]: "length (arrStore h a i v) = length h"
  by (simp add: arrStore_def)

lemma arrStore_other: "b \<noteq> a \<Longrightarrow> arrStore h a i v ! b = h ! b"
  by (simp add: arrStore_def)

lemma arrStore_same: "a < length h \<Longrightarrow> arrAt (arrStore h a i v) a = (arrAt h a)[i := v]"
  by (simp add: arrStore_def)

lemma isArr_arrStore: "a < length h \<Longrightarrow> isArr (arrStore h a i v) a"
  by (simp add: arrStore_def isArr_def)

lemma isMap_cell: "b < length h \<Longrightarrow> h ! b = CMap m \<Longrightarrow> isMap h b \<and> mapAt h b = m"
  by (simp add: isMap_def mapAt_def)

lemma isArr_cell: "b < length h \<Longrightarrow> h ! b = CArr xs \<Longrightarrow> isArr h b \<and> arrAt h b = xs"
  by (simp add: isArr_def arrAt_def)

lemma built_addr:
  "built L t0 h pv T \<Longrightarrow> okTree t0 \<Longrightarrow> p \<in> T \<Longrightarrow> addrOf (pv p) = Some b \<Longrightarrow> b < length h \<and> L \<le> b"
  using nodeOk_addr[OF built_nodeOk] by blast

lemma built_intro:
  assumes "[] \<in> T" and "\<And>p k. p @ [k] \<in> T \<Longrightarrow> p \<in> T"
    and "\<And>p. p \<in> T \<Longrightarrow> nodeOk L t0 h pv T p"
    and "\<And>p q b. p \<in> T \<Longrightarrow> q \<in> T \<Longrightarrow> addrOf (pv p) = Some b \<Longrightarrow> addrOf (pv q) = Some b \<Longrightarrow> p = q"
  shows "built L t0 h pv T"
  unfolding built_def
proof (intro conjI allI impI ballI)
  show "[] \<in> T" by (rule assms(1))
next
  fix p k assume "p @ [k] \<in> T" then show "p \<in> T" by (rule assms(2))
next
  fix p assume "p \<in> T" then show "nodeOk L t0 h pv T p" by (rule assms(3))
next
  fix p q assume p: "p \<in> T" and q: "q \<in> T"
    and e: "addrOf (pv p) \<noteq> None \<and> addrOf (pv p) = addrOf (pv q)"
  from e have "addrOf (pv p) \<noteq> None" by (rule conjunct1)
  then obtain b where b: "addrOf (pv p) = Some b" unfolding not_None_eq by (rule exE)
  from e have "addrOf (pv q) = addrOf (pv p)" by simp
  then have "addrOf (pv q) = Some b" using b by simp
  from assms(4)[OF p q b this] show "p = q" .
qed

text \<open>Storing a child under a key of an object node.\<close>

lemma built_map_insert:
  assumes B: "built L t0 h pv T" and ok: "okTree t0"
    and q: "q \<in> T" and sq: "sub t0 q = Some (TObj kts)" and k: "map_of kts k = Some tk"
    and a: "pv q = VMap a"
    and len: "length h \<le> length h1" and fr: "\<And>b. b < length h \<Longrightarrow> h1 ! b = h ! b"
    and child: "tk = TLeaf c \<or>
                (q @ [k] \<notin> T \<and> (\<exists>am. length h \<le> am \<and> am < length h1 \<and>
                   (((\<exists>kts2. tk = TObj kts2) \<and> c = VMap am \<and> h1 ! am = CMap []) \<or>
                    ((\<exists>ts2. tk = TArr ts2) \<and> c = VSlice am 0 \<and> h1 ! am = CArr []))))"
  shows "built L t0 (mapStore h1 a k c) (pv(q @ [k] := c)) (insert (q @ [k]) T)"
proof (rule built_intro)
  let ?r = "q @ [k]"
  let ?h = "mapStore h1 a k c"
  let ?pv = "pv(?r := c)"
  let ?T = "insert ?r T"
  have nq: "nodeOk L t0 h pv T q" using built_nodeOk[OF B q] .
  from nq a have aq: "L \<le> a" "isMap h a" "distinct (map fst (mapAt h a))"
    and mq: "\<And>k'. map_of (mapAt h a) k' = (if q @ [k'] \<in> T then Some (pv (q @ [k'])) else None)"
    unfolding nodeOk_Obj[OF sq] by auto
  have al: "a < length h" using aq(2) by (simp add: isMap_def)
  have al1: "a < length h1" using al len by simp
  have m1: "mapAt h1 a = mapAt h a" by (rule mapAt_cong[OF al al1 fr[OF al]])
  have sr: "sub t0 ?r = Some tk" using sq k by (simp add: sub_append)
  have Llen: "L \<le> length h" using aq(1) al by simp
  have rq: "?r \<noteq> q" by simp
  have leaf_sc: "tk = TLeaf c \<Longrightarrow> addrOf c = None"
    using okTree_leaf_scalar[OF ok] sr scalar_addrOf by blast
  have caddr: "\<And>b. addrOf c = Some b \<Longrightarrow> ?r \<notin> T \<and> length h \<le> b \<and> b < length h1"
    using child leaf_sc by auto
  show "[] \<in> ?T" using B by (simp add: built_def)
  show "\<And>p k'. p @ [k'] \<in> ?T \<Longrightarrow> p \<in> ?T"
    using built_parent[OF B] q by auto
  show "\<And>p. p \<in> ?T \<Longrightarrow> nodeOk L t0 ?h ?pv ?T p"
  proof -
    fix p assume p: "p \<in> ?T"
    consider (r) "p = ?r" | (q) "p = q" | (other) "p \<in> T" "p \<noteq> q" "p \<noteq> ?r" using p by auto
    then show "nodeOk L t0 ?h ?pv ?T p"
    proof cases
      case r
      have nochild: "\<And>k'. ?r \<notin> T \<Longrightarrow> ?r @ [k'] \<notin> ?T"
        using built_parent[OF B] by auto
      from child show ?thesis
      proof (elim disjE conjE exE)
        assume "tk = TLeaf c"
        then show ?thesis using sr r by (simp add: nodeOk_Leaf)
      next
        fix am kts2
        assume h: "?r \<notin> T" "length h \<le> am" "am < length h1" "tk = TObj kts2" "c = VMap am" "h1 ! am = CMap []"
        have ne: "am \<noteq> a" using h(2) al by simp
        have cell: "?h ! am = CMap []" using h(6) ne by (simp add: mapStore_other)
        have "isMap ?h am \<and> mapAt ?h am = []" by (rule isMap_cell) (use h(3) cell in auto)
        moreover have "L \<le> am" using Llen h(2) by simp
        ultimately show ?thesis
          unfolding r nodeOk_Obj[OF sr[unfolded h(4)]] using nochild[OF h(1)] h(5) by simp
      next
        fix am ts2
        assume h: "?r \<notin> T" "length h \<le> am" "am < length h1" "tk = TArr ts2" "c = VSlice am 0" "h1 ! am = CArr []"
        have ne: "am \<noteq> a" using h(2) al by simp
        have cell: "?h ! am = CArr []" using h(6) ne by (simp add: mapStore_other)
        have "isArr ?h am \<and> arrAt ?h am = []" by (rule isArr_cell) (use h(3) cell in auto)
        moreover have "L \<le> am" using Llen h(2) by simp
        ultimately show ?thesis
          unfolding r nodeOk_Arr[OF sr[unfolded h(4)]] using nochild[OF h(1)] h(5) by simp
      qed
    next
      case q
      have "isMap ?h a" using al1 by (rule isMap_mapStore)
      moreover have ma: "mapAt ?h a = AList.update k c (mapAt h a)"
        using mapStore_same[OF al1] m1 by simp
      moreover have "distinct (map fst (AList.update k c (mapAt h a)))"
        using aq(3) by (rule distinct_update)
      moreover have "\<And>k'. map_of (AList.update k c (mapAt h a)) k' =
                       (if q @ [k'] \<in> ?T then Some (?pv (q @ [k'])) else None)"
        using mq by (simp add: update_conv')
      ultimately show ?thesis
        unfolding q nodeOk_Obj[OF sq] using a aq(1) by simp
    next
      case other
      show ?thesis
      proof (rule nodeOk_frame[OF built_nodeOk[OF B other(1)]])
        show "?pv p = pv p" using other(3) by simp
      next
        fix b assume b: "addrOf (pv p) = Some b" "b < length h"
        have "b \<noteq> a" using built_inj[OF B other(1) \<open>q \<in> T\<close> b(1)] a other(2) by auto
        then show "b < length ?h \<and> ?h ! b = h ! b"
          using b(2) len fr[OF b(2)] by (simp add: mapStore_other)
      next
        fix k' show "(p @ [k'] \<in> ?T) = (p @ [k'] \<in> T)" using other(2) by auto
      next
        fix k' assume "p @ [k'] \<in> T"
        show "?pv (p @ [k']) = pv (p @ [k'])" using other(2) by auto
      qed
    qed
  qed
  show "\<And>p p' b. p \<in> ?T \<Longrightarrow> p' \<in> ?T \<Longrightarrow> addrOf (?pv p) = Some b \<Longrightarrow> addrOf (?pv p') = Some b \<Longrightarrow> p = p'"
  proof -
    fix p p' b
    assume p: "p \<in> ?T" and p': "p' \<in> ?T" and e: "addrOf (?pv p) = Some b" "addrOf (?pv p') = Some b"
    have old: "\<And>x. x \<in> ?T \<Longrightarrow> x \<noteq> ?r \<Longrightarrow> addrOf (?pv x) = Some b \<Longrightarrow> x \<in> T \<and> addrOf (pv x) = Some b \<and> b < length h"
      using built_addr[OF B ok] by auto
    have new: "\<And>x. x = ?r \<Longrightarrow> addrOf (?pv x) = Some b \<Longrightarrow> length h \<le> b"
      using caddr by auto
    show "p = p'"
    proof (cases "p = ?r")
      case True
      show ?thesis
      proof (cases "p' = ?r")
        case t: True
        with True show ?thesis by simp
      next
        case False
        from old[OF p' False e(2)] new[OF True e(1)] show ?thesis by simp
      qed
    next
      case False
      show ?thesis
      proof (cases "p' = ?r")
        case True
        from old[OF p False e(1)] new[OF True e(2)] show ?thesis by simp
      next
        case f: False
        from old[OF p False e(1)] old[OF p' f e(2)] built_inj[OF B] show ?thesis by blast
      qed
    qed
  qed
qed

lemma growTo_elems:
  assumes "growTo g h a n i = (h1, a1, n1)" "isArr h a" "n \<le> length (arrAt h a)"
  shows "\<forall>i' < n1. arrAt h1 a1 ! i' = (if i' < n then arrAt h a ! i' else VNil)"
proof (intro allI impI)
  fix i' assume i': "i' < n1"
  from growTo_spec[OF assms] have le: "n1 \<le> length (arrAt h1 a1)"
    and tk: "take n1 (arrAt h1 a1) = take n (arrAt h a) @ replicate (n1 - n) VNil" by auto
  have "arrAt h1 a1 ! i' = take n1 (arrAt h1 a1) ! i'" using i' by simp
  also have "\<dots> = (take n (arrAt h a) @ replicate (n1 - n) VNil) ! i'" by (simp only: tk)
  also have "\<dots> = (if i' < n then arrAt h a ! i' else VNil)"
    using i' assms(3) by (auto simp: nth_append)
  finally show "arrAt h1 a1 ! i' = (if i' < n then arrAt h a ! i' else VNil)" .
qed

text \<open>Storing a child in a slot of an array node whose parent is an object node.\<close>

lemma built_arr_insert:
  assumes B: "built L t0 h pv T" and ok: "okTree t0"
    and qd: "q = q0 @ [kq]"
    and q: "q \<in> T" and sq: "sub t0 q = Some (TArr ts)" and sq0: "sub t0 q0 = Some (TObj kts0)"
    and i: "i < length ts"
    and a: "pv q = VSlice a n" and a0: "pv q0 = VMap a0"
    and len: "length h \<le> length h2"
    and fr: "\<And>b. b < length h \<Longrightarrow> b \<noteq> a \<Longrightarrow> h2 ! b = h ! b"
    and a1: "a1 = a \<or> length h \<le> a1" and a1arr: "isArr h2 a1"
    and n1: "n1 = max n (Suc i)" and n1le: "n1 \<le> length (arrAt h2 a1)"
    and el: "\<And>i'. i' < n1 \<Longrightarrow> i' \<noteq> i \<Longrightarrow> arrAt h2 a1 ! i' = (if i' < n then arrAt h a ! i' else VNil)"
    and sl: "arrAt h2 a1 ! i = c"
    and child: "ts ! i = TLeaf c \<or> (q @ [Itoa i] \<in> T \<and> c = pv (q @ [Itoa i])) \<or>
                (q @ [Itoa i] \<notin> T \<and> (\<exists>kts2. ts ! i = TObj kts2) \<and>
                 (\<exists>am. c = VMap am \<and> length h \<le> am \<and> am \<noteq> a1 \<and> am < length h2 \<and> h2 ! am = CMap []))"
  shows "built L t0 (mapStore h2 a0 kq (VSlice a1 n1)) (pv(q := VSlice a1 n1, q @ [Itoa i] := c))
           (insert (q @ [Itoa i]) T)"
proof (rule built_intro)
  let ?r = "q @ [Itoa i]"
  let ?h = "mapStore h2 a0 kq (VSlice a1 n1)"
  let ?pv = "pv(q := VSlice a1 n1, ?r := c)"
  let ?T = "insert ?r T"
  have q0: "q0 \<in> T" using built_parent[OF B] q qd by simp
  have nq: "nodeOk L t0 h pv T q" using built_nodeOk[OF B q] .
  from nq a have aq: "L \<le> a" "isArr h a" "n \<le> length (arrAt h a)" "n \<le> length ts"
    and tch: "\<And>i'. i' < length ts \<Longrightarrow> q @ [Itoa i'] \<in> T \<Longrightarrow> i' < n"
    and elq: "\<And>i'. i' < n \<Longrightarrow> arrAt h a ! i' = (if q @ [Itoa i'] \<in> T then pv (q @ [Itoa i']) else VNil)"
    unfolding nodeOk_Arr[OF sq] by auto
  have nq0: "nodeOk L t0 h pv T q0" using built_nodeOk[OF B q0] .
  from nq0 a0 have aq0: "L \<le> a0" "isMap h a0" "distinct (map fst (mapAt h a0))"
    and mq0: "\<And>k'. map_of (mapAt h a0) k' = (if q0 @ [k'] \<in> T then Some (pv (q0 @ [k'])) else None)"
    unfolding nodeOk_Obj[OF sq0] by auto
  have al: "a < length h" using aq(2) by (simp add: isArr_def)
  have a0l: "a0 < length h" using aq0(2) by (simp add: isMap_def)
  have a0l2: "a0 < length h2" using a0l len by simp
  have a1l2: "a1 < length h2" using a1arr by (simp add: isArr_def)
  have qq0: "q0 \<noteq> q" using qd by simp
  have a0a: "a0 \<noteq> a" using built_inj[OF B q0 q, of a0] a a0 qq0 by auto
  have a0a1: "a0 \<noteq> a1" using a1 a0a a0l by auto
  have Llen: "L \<le> length h" using aq(1) al by simp
  have La1: "L \<le> a1" using a1 aq(1) Llen by auto
  have m0: "mapAt h2 a0 = mapAt h a0" by (rule mapAt_cong[OF a0l a0l2 fr[OF a0l a0a]])
  have oktq: "okTree (TArr ts)" using okTree_sub[OF ok sq] .
  then have tslen: "length ts \<le> 10000" by simp
  have sr: "sub t0 ?r = Some (ts ! i)"
    using sq sub_Arr_child[OF i tslen, of "[]"] by (simp add: sub_append)
  have inj_i: "\<And>i'. i' < length ts \<Longrightarrow> Itoa i' = Itoa i \<Longrightarrow> i' = i"
    using Itoa_inj_small i tslen by simp
  have rq: "?r \<noteq> q" "?r \<noteq> q0" using qd by auto
  have n1ts: "n1 \<le> length ts" using n1 aq(4) i by simp
  have nn1: "n \<le> n1" "i < n1" using n1 by auto
  have leaf_sc: "ts ! i = TLeaf c \<Longrightarrow> addrOf c = None"
    using okTree_leaf_scalar[OF ok] sr scalar_addrOf by metis
  have hother: "\<And>b. b < length h \<Longrightarrow> b \<noteq> a \<Longrightarrow> b \<noteq> a0 \<Longrightarrow> b < length ?h \<and> ?h ! b = h ! b"
    using len fr by (simp add: mapStore_other)
  have arr1: "arrAt ?h a1 = arrAt h2 a1"
    by (rule arrAt_cong) (use a1l2 a0a1 in \<open>auto simp: mapStore_other\<close>)
  have isarr1: "isArr ?h a1"
    using a1arr a0a1 by (simp add: isArr_def mapStore_other)
  show "[] \<in> ?T" using B by (simp add: built_def)
  show "\<And>p k'. p @ [k'] \<in> ?T \<Longrightarrow> p \<in> ?T"
    using built_parent[OF B] q by auto
  show "\<And>p. p \<in> ?T \<Longrightarrow> nodeOk L t0 ?h ?pv ?T p"
  proof -
    fix p assume p: "p \<in> ?T"
    consider (r) "p = ?r" | (q) "p = q" | (q0) "p = q0"
      | (other) "p \<in> T" "p \<noteq> q" "p \<noteq> ?r" "p \<noteq> q0" using p by auto
    then show "nodeOk L t0 ?h ?pv ?T p"
    proof cases
      case r
      from child show ?thesis
      proof (elim disjE conjE exE)
        assume "ts ! i = TLeaf c"
        then show ?thesis using sr r by (simp add: nodeOk_Leaf)
      next
        assume rT: "?r \<in> T" and c: "c = pv ?r"
        have "nodeOk L t0 ?h ?pv ?T ?r"
        proof (rule nodeOk_frame[OF built_nodeOk[OF B rT]])
          show "?pv ?r = pv ?r" using c by simp
        next
          fix b assume b: "addrOf (pv ?r) = Some b" "b < length h"
          have "b \<noteq> a" using built_inj[OF B rT q b(1)] a rq(1) by auto
          moreover have "b \<noteq> a0" using built_inj[OF B rT q0 b(1)] a0 rq(2) by auto
          ultimately show "b < length ?h \<and> ?h ! b = h ! b" using hother[OF b(2)] by simp
        next
          fix k' show "(?r @ [k'] \<in> ?T) = (?r @ [k'] \<in> T)" by auto
        next
          fix k' assume "?r @ [k'] \<in> T"
          have "?r @ [k'] \<noteq> q" by simp
          then show "?pv (?r @ [k']) = pv (?r @ [k'])" by simp
        qed
        then show ?thesis using r by simp
      next
        fix kts2 am
        assume h: "?r \<notin> T" "ts ! i = TObj kts2" "c = VMap am" "length h \<le> am" "am \<noteq> a1"
          "am < length h2" "h2 ! am = CMap []"
        have ne: "am \<noteq> a0" using h(4) a0l by simp
        have cell: "?h ! am = CMap []" using h(7) ne by (simp add: mapStore_other)
        have "isMap ?h am \<and> mapAt ?h am = []" by (rule isMap_cell) (use h(6) cell in auto)
        moreover have "L \<le> am" using Llen h(4) by simp
        moreover have "\<And>k'. ?r @ [k'] \<notin> ?T" using built_parent[OF B] h(1) by auto
        ultimately show ?thesis
          unfolding r nodeOk_Arr nodeOk_Obj[OF sr[unfolded h(2)]] using h(3) by simp
      qed
    next
      case q
      have v: "?pv q = VSlice a1 n1" using rq(1) by simp
      have t: "\<And>i'. i' < length ts \<Longrightarrow> q @ [Itoa i'] \<in> ?T \<Longrightarrow> i' < n1"
      proof -
        fix i' assume i': "i' < length ts" and m: "q @ [Itoa i'] \<in> ?T"
        show "i' < n1"
        proof (cases "i' = i")
          case True
          then show ?thesis using nn1 by simp
        next
          case False
          with inj_i[OF i'] m have "q @ [Itoa i'] \<in> T" by auto
          from tch[OF i' this] nn1 show ?thesis by simp
        qed
      qed
      have e: "\<And>i'. i' < n1 \<Longrightarrow> arrAt h2 a1 ! i' = (if q @ [Itoa i'] \<in> ?T then ?pv (q @ [Itoa i']) else VNil)"
      proof -
        fix i' assume i': "i' < n1"
        then have i'ts: "i' < length ts" using n1ts by simp
        show "arrAt h2 a1 ! i' = (if q @ [Itoa i'] \<in> ?T then ?pv (q @ [Itoa i']) else VNil)"
        proof (cases "i' = i")
          case True
          then show ?thesis using sl by simp
        next
          case False
          with inj_i[OF i'ts] have ne: "q @ [Itoa i'] \<noteq> ?r" by auto
          have ne2: "q @ [Itoa i'] \<noteq> q" by simp
          have mem: "(q @ [Itoa i'] \<in> ?T) = (q @ [Itoa i'] \<in> T)" using ne by simp
          have val: "?pv (q @ [Itoa i']) = pv (q @ [Itoa i'])" using ne ne2 by simp
          show ?thesis
          proof (cases "i' < n")
            case True
            with el[OF i' False] elq[OF True] show ?thesis by (simp only: mem val if_True)
          next
            case f: False
            then have "q @ [Itoa i'] \<notin> T" using tch[OF i'ts] by auto
            with el[OF i' False] f show ?thesis by (simp only: mem if_False)
          qed
        qed
      qed
      show ?thesis
        unfolding q nodeOk_Arr[OF sq]
      proof (rule exI[of _ a1], rule exI[of _ n1], intro conjI allI impI)
        show "?pv q = VSlice a1 n1" by (rule v)
        show "L \<le> a1" by (rule La1)
        show "isArr ?h a1" by (rule isarr1)
        show "n1 \<le> length (arrAt ?h a1)" using n1le by (simp only: arr1)
        show "n1 \<le> length ts" by (rule n1ts)
        show "\<And>i'. i' < length ts \<Longrightarrow> q @ [Itoa i'] \<in> ?T \<Longrightarrow> i' < n1" by (rule t)
        show "\<And>i'. i' < n1 \<Longrightarrow> arrAt ?h a1 ! i' = (if q @ [Itoa i'] \<in> ?T then ?pv (q @ [Itoa i']) else VNil)"
          using e by (simp only: arr1)
      qed
    next
      case q0
      have v: "?pv q0 = VMap a0" using rq(2) qq0 a0 by simp
      have "isMap ?h a0" using a0l2 by (rule isMap_mapStore)
      moreover have ma: "mapAt ?h a0 = AList.update kq (VSlice a1 n1) (mapAt h a0)"
        using mapStore_same[OF a0l2] m0 by simp
      moreover have "distinct (map fst (AList.update kq (VSlice a1 n1) (mapAt h a0)))"
        using aq0(3) by (rule distinct_update)
      moreover have "\<And>k'. map_of (AList.update kq (VSlice a1 n1) (mapAt h a0)) k' =
                       (if q0 @ [k'] \<in> ?T then Some (?pv (q0 @ [k'])) else None)"
      proof -
        fix k'
        show "map_of (AList.update kq (VSlice a1 n1) (mapAt h a0)) k' =
                (if q0 @ [k'] \<in> ?T then Some (?pv (q0 @ [k'])) else None)"
        proof (cases "k' = kq")
          case True
          then show ?thesis using q qd rq(1) by (simp add: update_conv')
        next
          case False
          have ne: "q0 @ [k'] \<noteq> ?r" "q0 @ [k'] \<noteq> q" using qd False by auto
          then show ?thesis using mq0[of k'] False qq0 by (simp add: update_conv')
        qed
      qed
      ultimately show ?thesis
        unfolding q0 nodeOk_Obj[OF sq0] using v aq0(1) by simp
    next
      case other
      show ?thesis
      proof (rule nodeOk_frame[OF built_nodeOk[OF B other(1)]])
        show "?pv p = pv p" using other(2,3) by simp
      next
        fix b assume b: "addrOf (pv p) = Some b" "b < length h"
        have "b \<noteq> a" using built_inj[OF B other(1) q b(1)] a other(2) by auto
        moreover have "b \<noteq> a0" using built_inj[OF B other(1) q0 b(1)] a0 other(4) by auto
        ultimately show "b < length ?h \<and> ?h ! b = h ! b" using hother[OF b(2)] by simp
      next
        fix k' show "(p @ [k'] \<in> ?T) = (p @ [k'] \<in> T)" using other(2) by auto
      next
        fix k' assume "p @ [k'] \<in> T"
        have "p @ [k'] \<noteq> ?r" using other(2) by auto
        moreover have "p @ [k'] \<noteq> q" using other(4) qd by auto
        ultimately show "?pv (p @ [k']) = pv (p @ [k'])" using other(2) by simp
      qed
    qed
  qed
  show "\<And>p p' b. p \<in> ?T \<Longrightarrow> p' \<in> ?T \<Longrightarrow> addrOf (?pv p) = Some b \<Longrightarrow> addrOf (?pv p') = Some b \<Longrightarrow> p = p'"
  proof -
    fix p p' b
    assume p: "p \<in> ?T" and p': "p' \<in> ?T" and e: "addrOf (?pv p) = Some b" "addrOf (?pv p') = Some b"
    let ?K = "\<lambda>x. (x = q \<and> b = a1) \<or> (x = ?r \<and> ?r \<notin> T \<and> length h \<le> b \<and> b \<noteq> a1) \<or>
                   (x \<in> T \<and> x \<noteq> q \<and> addrOf (pv x) = Some b \<and> b < length h \<and> b \<noteq> a)"
    have K: "\<And>x. x \<in> ?T \<Longrightarrow> addrOf (?pv x) = Some b \<Longrightarrow> ?K x"
    proof -
      fix x assume x: "x \<in> ?T" and ex: "addrOf (?pv x) = Some b"
      have oldK: "\<And>y. y \<in> T \<Longrightarrow> y \<noteq> q \<Longrightarrow> addrOf (pv y) = Some b \<Longrightarrow> ?K y"
      proof -
        fix y assume y: "y \<in> T" "y \<noteq> q" "addrOf (pv y) = Some b"
        have "b < length h" using built_addr[OF B ok y(1) y(3)] by simp
        moreover have "b \<noteq> a" using built_inj[OF B y(1) q y(3)] a y(2) by auto
        ultimately show "?K y" using y by simp
      qed
      consider (r) "x = ?r" | (q) "x = q" | (other) "x \<in> T" "x \<noteq> q" "x \<noteq> ?r" using x by auto
      then show "?K x"
      proof cases
        case r
        with ex have cb: "addrOf c = Some b" by simp
        from child show ?thesis
        proof (elim disjE conjE exE)
          assume "ts ! i = TLeaf c"
          from leaf_sc[OF this] cb show ?thesis by simp
        next
          assume rT: "?r \<in> T" and c: "c = pv ?r"
          have "?K ?r" by (rule oldK[OF rT rq(1)]) (use cb c in simp)
          then show ?thesis using r by simp
        next
          fix kts2 am
          assume h: "?r \<notin> T" "c = VMap am" "length h \<le> am" "am \<noteq> a1"
          with cb r show ?thesis by simp
        qed
      next
        case q
        with ex rq(1) have "b = a1" by simp
        with q show ?thesis by simp
      next
        case other
        with ex have "addrOf (pv x) = Some b" by simp
        from oldK[OF other(1,2) this] show ?thesis .
      qed
    qed
    from K[OF p e(1)] K[OF p' e(2)] a1 built_inj[OF B, of p p' b]
    show "p = p'" by (elim disjE conjE) auto
  qed
qed

text \<open>The descent of \<^verbatim>\<open>updateDataReference\<close> follows the nodes built so far.\<close>

lemma stepRef_built:
  assumes B: "built L t0 h pv T" and ok: "okTree t0" and pk: "p @ [k] \<in> T"
    and cell: "\<And>b. addrOf (pv p) = Some b \<Longrightarrow> b < length h2 \<and> h2 ! b = h ! b"
  shows "stepRef h2 (pv p) k = pv (p @ [k])"
proof -
  have pT: "p \<in> T" using built_parent[OF B pk] .
  have np: "nodeOk L t0 h pv T p" using built_nodeOk[OF B pT] .
  from nodeOk_sub[OF built_nodeOk[OF B pk]] obtain tk where tk: "sub t0 (p @ [k]) = Some tk" by auto
  then obtain t where t: "sub t0 p = Some t" and tk': "sub t [k] = Some tk"
    by (auto simp: sub_append split: option.splits)
  have okt: "okTree t" using okTree_sub[OF ok t] .
  show ?thesis
  proof (cases t)
    case (TLeaf y)
    with tk' show ?thesis by simp
  next
    case (TObj kts)
    from tk'[unfolded TObj] obtain t' where kt: "(k, t') \<in> set kts" by (rule sub_Obj_cases)
    with okt TObj have "okKey k" by auto
    then have at: "Atoi k = None" by (simp add: okKey_def)
    from np obtain ap where ap: "pv p = VMap ap" "isMap h ap"
      and m: "\<And>k'. map_of (mapAt h ap) k' = (if p @ [k'] \<in> T then Some (pv (p @ [k'])) else None)"
      unfolding nodeOk_Obj[OF t[unfolded TObj]] by auto
    have apl: "ap < length h" using ap(2) by (simp add: isMap_def)
    from cell[of ap] ap(1) have c: "ap < length h2" "h2 ! ap = h ! ap" by auto
    have "mapAt h2 ap = mapAt h ap" by (rule mapAt_cong[OF apl c])
    then show ?thesis using at ap(1) m[of k] pk by (simp add: stepRef_def)
  next
    case (TArr ts)
    from tk'[unfolded TArr] obtain i where i: "i < length ts" "k = Itoa i" "Atoi k = Some (int i)"
      by (rule sub_Arr_cases)
    from np obtain ap n where ap: "pv p = VSlice ap n" "isArr h ap"
      and tch: "\<And>i'. i' < length ts \<Longrightarrow> p @ [Itoa i'] \<in> T \<Longrightarrow> i' < n"
      and e: "\<And>i'. i' < n \<Longrightarrow> arrAt h ap ! i' = (if p @ [Itoa i'] \<in> T then pv (p @ [Itoa i']) else VNil)"
      unfolding nodeOk_Arr[OF t[unfolded TArr]] by auto
    have apl: "ap < length h" using ap(2) by (simp add: isArr_def)
    from cell[of ap] ap(1) have c: "ap < length h2" "h2 ! ap = h ! ap" by auto
    have eq: "arrAt h2 ap = arrAt h ap" by (rule arrAt_cong[OF apl c])
    have lt: "i < n" using tch[OF i(1)] pk i(2) by simp
    from e[OF lt] pk i(2) have "arrAt h ap ! i = pv (p @ [k])" by simp
    then show ?thesis using i(3) ap(1) lt eq by (simp add: stepRef_def)
  qed
qed

lemma walkRef_built:
  assumes B: "built L t0 h pv T" and ok: "okTree t0" and q: "q \<in> T"
    and fr: "\<And>r b. r \<in> T \<Longrightarrow> r \<noteq> q \<Longrightarrow> addrOf (pv r) = Some b \<Longrightarrow> b < length h2 \<and> h2 ! b = h ! b"
  shows "p @ qs @ [kq] = q \<Longrightarrow> pv (p @ qs) = VMap a0 \<Longrightarrow>
         walkRef h2 (pv p) (qs @ [kq]) newRef = mapStore h2 a0 kq newRef"
proof (induction qs arbitrary: p)
  case Nil
  then show ?case by simp
next
  case (Cons k qs)
  have pk: "p @ [k] \<in> T"
    using built_prefix[OF B, of "p @ [k]" "qs @ [kq]"] q Cons.prems(1) by simp
  have pT: "p \<in> T" using built_parent[OF B pk] .
  have pq: "p \<noteq> q" using Cons.prems(1) by auto
  have st: "stepRef h2 (pv p) k = pv (p @ [k])"
    by (rule stepRef_built[OF B ok pk]) (rule fr[OF pT pq])
  obtain y ys where ys: "qs @ [kq] = y # ys" by (cases "qs @ [kq]") auto
  have "walkRef h2 (pv p) ((k # qs) @ [kq]) newRef = walkRef h2 (stepRef h2 (pv p) k) (qs @ [kq]) newRef"
    by (simp add: ys)
  also have "\<dots> = walkRef h2 (pv (p @ [k])) (qs @ [kq]) newRef" by (simp only: st)
  also have "\<dots> = mapStore h2 a0 kq newRef"
    by (rule Cons.IH) (use Cons.prems in simp_all)
  finally show ?case .
qed

lemma built_hd:
  assumes B: "built L t0 h pv T" and root: "t0 = TObj kts0" and rk: "rootKeysOk t0" and q: "q \<in> T"
  shows "q = [] \<or> hd q \<noteq> []"
proof (cases q)
  case Nil
  then show ?thesis by simp
next
  case (Cons k q')
  from nodeOk_sub[OF built_nodeOk[OF B q]] obtain t where "sub t0 q = Some t" by auto
  then have "sub (TObj kts0) (k # q') = Some t" using Cons root by simp
  then obtain t' where "(k, t') \<in> set kts0" by (rule sub_Obj_cases)
  with rk root have "k \<noteq> []" by (auto simp: rootKeysOk_def)
  with Cons show ?thesis by simp
qed

text \<open>The parent of an array node is an object node.\<close>

lemma arr_parent:
  assumes ok: "okTree t0" and root: "t0 = TObj kts0" and sq: "sub t0 q = Some (TArr ts)"
  obtains q0 kq kts' where "q = q0 @ [kq]" "sub t0 q0 = Some (TObj kts')"
proof -
  have "q \<noteq> []" using sq root by auto
  then obtain q0 kq where qd: "q = q0 @ [kq]" by (cases q rule: rev_cases) auto
  from sq[unfolded qd] obtain t where t: "sub t0 q0 = Some t" and tk: "sub t [kq] = Some (TArr ts)"
    by (auto simp: sub_append split: option.splits)
  have okt: "okTree t" using okTree_sub[OF ok t] .
  show thesis
  proof (cases t)
    case (TLeaf y)
    with tk show ?thesis by simp
  next
    case (TObj kts')
    with qd t that show ?thesis by simp
  next
    case (TArr ts')
    from tk[unfolded TArr] obtain i where i: "i < length ts'" "sub (ts' ! i) [] = Some (TArr ts)"
      by (rule sub_Arr_cases)
    then have "ts' ! i = TArr ts" by simp
    moreover have "\<not> isArrTree (ts' ! i)" using okt TArr i(1) by simp
    ultimately show ?thesis by simp
  qed
qed

text \<open>The slot of an array node after the growth loop.\<close>

lemma arr_slot:
  assumes B: "built L t0 h pv T" and ok: "okTree t0"
    and q: "q \<in> T" and sq: "sub t0 q = Some (TArr ts)" and i: "i < length ts"
    and a: "pv q = VSlice a n" and gr: "growTo g h a n i = (h1, a1, n1)"
    and ti: "ts ! i = TObj kts2"
  shows "(q @ [Itoa i] \<in> T \<longrightarrow> arrAt h1 a1 ! i = pv (q @ [Itoa i]) \<and> arrAt h1 a1 ! i \<noteq> VNil) \<and>
         (q @ [Itoa i] \<notin> T \<longrightarrow> arrAt h1 a1 ! i = VNil)"
proof -
  let ?r = "q @ [Itoa i]"
  from built_nodeOk[OF B q] a have aq: "isArr h a" "n \<le> length (arrAt h a)"
    and tch: "\<And>i'. i' < length ts \<Longrightarrow> q @ [Itoa i'] \<in> T \<Longrightarrow> i' < n"
    and elq: "\<And>i'. i' < n \<Longrightarrow> arrAt h a ! i' = (if q @ [Itoa i'] \<in> T then pv (q @ [Itoa i']) else VNil)"
    unfolding nodeOk_Arr[OF sq] by auto
  from growTo_frame[OF gr] have n1: "n1 = max n (Suc i)" by simp
  then have "i < n1" by simp
  with growTo_elems[OF gr aq] have s: "arrAt h1 a1 ! i = (if i < n then arrAt h a ! i else VNil)" by simp
  have tslen: "length ts \<le> 10000" using okTree_sub[OF ok sq] by simp
  have sr: "sub t0 ?r = Some (TObj kts2)"
    using sq sub_Arr_child[OF i tslen, of "[]"] ti by (simp add: sub_append)
  show ?thesis
  proof (intro conjI impI)
    assume rT: "?r \<in> T"
    then have lt: "i < n" using tch[OF i] by simp
    from s lt elq[OF lt] rT show e: "arrAt h1 a1 ! i = pv ?r" by simp
    from built_nodeOk[OF B rT] obtain am where "pv ?r = VMap am"
      unfolding nodeOk_Obj[OF sr] by auto
    with e show "arrAt h1 a1 ! i \<noteq> VNil" by simp
  next
    assume rT: "?r \<notin> T"
    show "arrAt h1 a1 ! i = VNil"
    proof (cases "i < n")
      case True
      with s elq[OF True] rT show ?thesis by simp
    next
      case False
      with s show ?thesis by simp
    qed
  qed
qed

lemma arrStore_id: "isArr h a \<Longrightarrow> arrStore h a i (arrAt h a ! i) = h"
  by (simp add: arrStore_def isArr_arrAt[symmetric])

text \<open>One assignment into a slot of an array node, with the write-back into its parent.\<close>

lemma arr_step:
  assumes B: "built L t0 h pv T" and ok: "okTree t0" and root: "t0 = TObj kts0"
    and q: "q \<in> T" and sq: "sub t0 q = Some (TArr ts)" and i: "i < length ts"
    and a: "pv q = VSlice a n" and gr: "growTo g h a n i = (h1, a1, n1)"
    and h2: "h2 = arrStore (h1 @ ext) a1 i c"
    and child: "(ext = [] \<and> ts ! i = TLeaf c) \<or>
                (ext = [] \<and> q @ [Itoa i] \<in> T \<and> c = pv (q @ [Itoa i])) \<or>
                (ext = [CMap []] \<and> q @ [Itoa i] \<notin> T \<and> (\<exists>kts2. ts ! i = TObj kts2) \<and> c = VMap (length h1))"
  shows "built L t0 (walkRef h2 (pv []) q (VSlice a1 n1)) (pv(q := VSlice a1 n1, q @ [Itoa i] := c))
           (insert (q @ [Itoa i]) T) \<and>
         arrAt h2 a1 ! i = c \<and> length h \<le> length (walkRef h2 (pv []) q (VSlice a1 n1)) \<and>
         (\<forall>b < L. walkRef h2 (pv []) q (VSlice a1 n1) ! b = h ! b)"
proof -
  from arr_parent[OF ok root sq] obtain q0 kq kts' where qd: "q = q0 @ [kq]"
    and sq0: "sub t0 q0 = Some (TObj kts')" by blast
  have q0: "q0 \<in> T" using built_parent[OF B] q qd by simp
  from built_nodeOk[OF B q0] obtain a0 where a0: "pv q0 = VMap a0" and a0p: "L \<le> a0" "isMap h a0"
    unfolding nodeOk_Obj[OF sq0] by auto
  have a0l: "a0 < length h" using a0p(2) by (simp add: isMap_def)
  from built_nodeOk[OF B q] a have aq: "L \<le> a" "isArr h a" "n \<le> length (arrAt h a)"
    unfolding nodeOk_Arr[OF sq] by auto
  have al: "a < length h" using aq(2) by (simp add: isArr_def)
  from growTo_frame[OF gr] have gl: "length h \<le> length h1" and ga: "a1 = a \<or> length h \<le> a1"
    and n1: "n1 = max n (Suc i)" and gfr: "\<And>b. b < length h \<Longrightarrow> b \<noteq> a \<Longrightarrow> h1 ! b = h ! b"
    by auto
  from growTo_spec[OF gr aq(2,3)] have g1: "isArr h1 a1" "n1 \<le> length (arrAt h1 a1)" by auto
  note ge = growTo_elems[OF gr aq(2,3)]
  have a1l: "a1 < length h1" using g1(1) by (simp add: isArr_def)
  let ?hx = "h1 @ ext"
  have a1lx: "a1 < length ?hx" using a1l by simp
  have arrx: "arrAt ?hx a1 = arrAt h1 a1"
    by (rule arrAt_cong) (use a1l in \<open>auto simp: nth_append\<close>)
  have len2: "length h2 = length h1 + length ext" by (simp add: h2)
  have len: "length h \<le> length h2" using gl len2 by simp
  have fr2: "\<And>b. b < length h \<Longrightarrow> b \<noteq> a \<Longrightarrow> h2 ! b = h ! b"
  proof -
    fix b assume b: "b < length h" "b \<noteq> a"
    then have "b \<noteq> a1" using ga by auto
    then have "h2 ! b = ?hx ! b" by (simp add: h2 arrStore_other)
    also have "\<dots> = h1 ! b" using b(1) gl by (simp add: nth_append)
    also have "\<dots> = h ! b" by (rule gfr[OF b])
    finally show "h2 ! b = h ! b" .
  qed
  have a1arr: "isArr h2 a1" unfolding h2 by (rule isArr_arrStore[OF a1lx])
  have arr2: "arrAt h2 a1 = (arrAt h1 a1)[i := c]"
    unfolding h2 using arrStore_same[OF a1lx] arrx by simp
  have in1: "i < n1" using n1 by simp
  have n1le: "n1 \<le> length (arrAt h2 a1)" using g1(2) by (simp add: arr2)
  have el: "\<And>i'. i' < n1 \<Longrightarrow> i' \<noteq> i \<Longrightarrow> arrAt h2 a1 ! i' = (if i' < n then arrAt h a ! i' else VNil)"
    using ge by (simp add: arr2)
  have sl: "arrAt h2 a1 ! i = c" using in1 g1(2) by (simp add: arr2)
  have child': "ts ! i = TLeaf c \<or> (q @ [Itoa i] \<in> T \<and> c = pv (q @ [Itoa i])) \<or>
                (q @ [Itoa i] \<notin> T \<and> (\<exists>kts2. ts ! i = TObj kts2) \<and>
                 (\<exists>am. c = VMap am \<and> length h \<le> am \<and> am \<noteq> a1 \<and> am < length h2 \<and> h2 ! am = CMap []))"
    using child
  proof (elim disjE conjE exE)
    fix kts2
    assume h: "ext = [CMap []]" "q @ [Itoa i] \<notin> T" "ts ! i = TObj kts2" "c = VMap (length h1)"
    have ne: "length h1 \<noteq> a1" using a1l by simp
    have "h2 ! length h1 = ?hx ! length h1" using ne by (simp add: h2 arrStore_other)
    then have "h2 ! length h1 = CMap []" using h(1) by simp
    moreover have "length h1 < length h2" using len2 h(1) by simp
    ultimately show ?thesis using h gl ne by auto
  qed auto
  let ?new = "VSlice a1 n1"
  have W: "walkRef h2 (pv []) q ?new = mapStore h2 a0 kq ?new"
  proof -
    have "walkRef h2 (pv []) (q0 @ [kq]) ?new = mapStore h2 a0 kq ?new"
    proof (rule walkRef_built[OF B ok q])
      fix r b assume r: "r \<in> T" "r \<noteq> q" "addrOf (pv r) = Some b"
      have bl: "b < length h" using built_addr[OF B ok r(1) r(3)] by simp
      have "b \<noteq> a" using built_inj[OF B r(1) q r(3)] a r(2) by auto
      from fr2[OF bl this] bl len show "b < length h2 \<and> h2 ! b = h ! b" by simp
    next
      show "[] @ q0 @ [kq] = q" using qd by simp
    next
      show "pv ([] @ q0) = VMap a0" using a0 by simp
    qed
    then show ?thesis by (simp only: qd)
  qed
  have Bn: "built L t0 (mapStore h2 a0 kq ?new) (pv(q := ?new, q @ [Itoa i] := c)) (insert (q @ [Itoa i]) T)"
    by (rule built_arr_insert[OF B ok qd q sq sq0 i a a0 len fr2 ga a1arr n1 n1le el sl child'])
  have a0a: "a0 \<noteq> a" using built_inj[OF B q0 q, of a0] a a0 qd by auto
  have frL: "\<And>b. b < L \<Longrightarrow> mapStore h2 a0 kq ?new ! b = h ! b"
  proof -
    fix b assume b: "b < L"
    then have "b \<noteq> a0" "b \<noteq> a" "b < length h" using a0p(1) aq(1) al by auto
    then show "mapStore h2 a0 kq ?new ! b = h ! b" using fr2 by (simp add: mapStore_other)
  qed
  show ?thesis unfolding W using Bn sl len frL by simp
qed

text \<open>One assignment under a key of an object node.\<close>

lemma obj_step:
  assumes B: "built L t0 h pv T" and ok: "okTree t0"
    and q: "q \<in> T" and sq: "sub t0 q = Some (TObj kts)" and k: "map_of kts k = Some tk"
    and a: "pv q = VMap a"
    and child: "(ext = [] \<and> tk = TLeaf c) \<or>
                (q @ [k] \<notin> T \<and> (((\<exists>kts2. tk = TObj kts2) \<and> ext = [CMap []] \<and> c = VMap (length h)) \<or>
                                  ((\<exists>ts2. tk = TArr ts2) \<and> ext = [CArr []] \<and> c = VSlice (length h) 0)))"
  shows "built L t0 (mapStore (h @ ext) a k c) (pv(q @ [k] := c)) (insert (q @ [k]) T) \<and>
         map_of (mapAt (mapStore (h @ ext) a k c) a) k = Some c \<and>
         length h \<le> length (mapStore (h @ ext) a k c) \<and>
         (\<forall>b < L. mapStore (h @ ext) a k c ! b = h ! b)"
proof -
  from built_nodeOk[OF B q] a have aq: "L \<le> a" "isMap h a"
    unfolding nodeOk_Obj[OF sq] by auto
  have al: "a < length h" using aq(2) by (simp add: isMap_def)
  have alx: "a < length (h @ ext)" using al by simp
  have fr: "\<And>b. b < length h \<Longrightarrow> (h @ ext) ! b = h ! b" by (simp add: nth_append)
  have child': "tk = TLeaf c \<or>
                (q @ [k] \<notin> T \<and> (\<exists>am. length h \<le> am \<and> am < length (h @ ext) \<and>
                   (((\<exists>kts2. tk = TObj kts2) \<and> c = VMap am \<and> (h @ ext) ! am = CMap []) \<or>
                    ((\<exists>ts2. tk = TArr ts2) \<and> c = VSlice am 0 \<and> (h @ ext) ! am = CArr []))))"
    using child by (elim disjE conjE exE) auto
  have Bn: "built L t0 (mapStore (h @ ext) a k c) (pv(q @ [k] := c)) (insert (q @ [k]) T)"
    by (rule built_map_insert[OF B ok q sq k a _ fr child']) simp
  have m: "map_of (mapAt (mapStore (h @ ext) a k c) a) k = Some c"
    by (simp add: mapStore_same[OF alx] update_conv')
  have frL: "\<And>b. b < L \<Longrightarrow> mapStore (h @ ext) a k c ! b = h ! b"
  proof -
    fix b assume "b < L"
    then have "b \<noteq> a" "b < length h" using aq(1) al by auto
    then show "mapStore (h @ ext) a k c ! b = h ! b" by (simp add: mapStore_other nth_append)
  qed
  show ?thesis using Bn m frL by simp
qed

lemma sbr_map_last:
  "Atoi k = None \<Longrightarrow>
   setByPathRecursive g h j (VMap a) [k] x cp = Return (mapStore h a k x, j, None)"
  by simp

lemma sbr_map_old:
  "Atoi k = None \<Longrightarrow> map_of (mapAt h a) k = Some c \<Longrightarrow>
   setByPathRecursive g h j (VMap a) (k # k2 # rest) x cp =
     setByPathRecursive g h j c (k2 # rest) x (nextPath cp k)"
  by simp

lemma sbr_map_new:
  "Atoi k = None \<Longrightarrow> map_of (mapAt h a) k = None \<Longrightarrow> keyContainer h k2 = (h', c) \<Longrightarrow>
   map_of (mapAt (mapStore h' a k c) a) k = Some c \<Longrightarrow>
   setByPathRecursive g h j (VMap a) (k # k2 # rest) x cp =
     setByPathRecursive g (mapStore h' a k c) j c (k2 # rest) x (nextPath cp k)"
  by simp

lemma sbr_arr_last:
  "Atoi k = Some (int i) \<Longrightarrow> i < 10000 \<Longrightarrow> growTo g h a n i = (h1, a1, n1) \<Longrightarrow> cp \<noteq> [] \<Longrightarrow>
   setByPathRecursive g h j (VSlice a n) [k] x cp =
     Return (walkRef (arrStore h1 a1 i x) (data j) (splitDot cp) (VSlice a1 n1), j, None)"
  by (simp add: updateDataReference_def)

lemma sbr_arr_old:
  "Atoi k = Some (int i) \<Longrightarrow> i < 10000 \<Longrightarrow> growTo g h a n i = (h1, a1, n1) \<Longrightarrow> cp \<noteq> [] \<Longrightarrow>
   arrAt h1 a1 ! i \<noteq> VNil \<Longrightarrow>
   setByPathRecursive g h j (VSlice a n) (k # k2 # rest) x cp =
     setByPathRecursive g (walkRef h1 (data j) (splitDot cp) (VSlice a1 n1)) j (arrAt h1 a1 ! i)
       (k2 # rest) x (nextPath cp k)"
  by (simp add: updateDataReference_def)

lemma sbr_arr_new:
  "Atoi k = Some (int i) \<Longrightarrow> i < 10000 \<Longrightarrow> growTo g h a n i = (h1, a1, n1) \<Longrightarrow> cp \<noteq> [] \<Longrightarrow>
   arrAt h1 a1 ! i = VNil \<Longrightarrow> Atoi k2 = None \<Longrightarrow>
   h2 = arrStore (h1 @ [CMap []]) a1 i (VMap (length h1)) \<Longrightarrow>
   setByPathRecursive g h j (VSlice a n) (k # k2 # rest) x cp =
     setByPathRecursive g (walkRef h2 (data j) (splitDot cp) (VSlice a1 n1)) j (arrAt h2 a1 ! i)
       (k2 # rest) x (nextPath cp k)"
  by (simp add: updateDataReference_def slotContainer_def newMap_def)

text \<open>
  \<^verbatim>\<open>setByPathRecursive\<close> from a node built so far to a leaf of the tree: it returns without
  error, and the nodes on the way are built.
\<close>

lemma setByPathRecursive_built:
  assumes ok: "okTree t0" and root: "t0 = TObj kts0" and rk: "rootKeysOk t0"
  shows "built L t0 h pv T \<Longrightarrow> data j = pv [] \<Longrightarrow> q \<in> T \<Longrightarrow>
         sub t0 (q @ parts) = Some (TLeaf x) \<Longrightarrow> parts \<noteq> [] \<Longrightarrow>
         \<exists>h' pv' T'. setByPathRecursive g h j (pv q) parts x (joinDot q) = Return (h', j, None) \<and>
            built L t0 h' pv' T' \<and> pv' [] = pv [] \<and> T \<subseteq> T' \<and> q @ parts \<in> T' \<and>
            length h \<le> length h' \<and> (\<forall>b < L. h' ! b = h ! b)"
proof (induction parts arbitrary: q h pv T)
  case Nil
  then show ?case by simp
next
  case (Cons k rest)
  note IH = Cons.IH
  note B = Cons.prems(1) and dj = Cons.prems(2) and q = Cons.prems(3) and leaf = Cons.prems(4)
  from leaf obtain t where t: "sub t0 q = Some t" and tl: "sub t (k # rest) = Some (TLeaf x)"
    by (auto simp: sub_append split: option.splits)
  have okt: "okTree t" using okTree_sub[OF ok t] .
  have hd: "q = [] \<or> hd q \<noteq> []" by (rule built_hd[OF B root rk q])
  have np: "nextPath (joinDot q) k = joinDot (q @ [k])" by (rule nextPath_joinDot[OF hd])
  have leaf': "sub t0 ((q @ [k]) @ rest) = Some (TLeaf x)" using leaf by simp
  show ?case
  proof (cases t)
    case (TLeaf y)
    with tl show ?thesis by simp
  next
    case (TObj kts)
    note sq = t[unfolded TObj]
    from tl[unfolded TObj] obtain tk where kt: "(k, tk) \<in> set kts" and tkl: "sub tk rest = Some (TLeaf x)"
      by (rule sub_Obj_cases)
    from okt TObj kt have dk: "distinct (map fst kts)" and okk: "okKey k" and oktk: "okTree tk" by auto
    have mk: "map_of kts k = Some tk" using dk kt by simp
    have at: "Atoi k = None" using okk by (simp add: okKey_def)
    from built_nodeOk[OF B q] obtain a where a: "pv q = VMap a"
      and m: "\<And>k'. map_of (mapAt h a) k' = (if q @ [k'] \<in> T then Some (pv (q @ [k'])) else None)"
      unfolding nodeOk_Obj[OF sq] by auto
    show ?thesis
    proof (cases rest)
      case Nil
      with tkl have tk: "tk = TLeaf x" by simp
      let ?h = "mapStore h a k x"
      from obj_step[OF B ok q sq mk a, of "[]" x] tk
      have st: "built L t0 ?h (pv(q @ [k] := x)) (insert (q @ [k]) T)"
        "length h \<le> length ?h" "\<forall>b < L. ?h ! b = h ! b" by simp_all
      have run: "setByPathRecursive g h j (pv q) (k # rest) x (joinDot q) = Return (?h, j, None)"
        unfolding a Nil by (rule sbr_map_last[OF at])
      have "(pv(q @ [k] := x)) [] = pv []" by simp
      moreover have "T \<subseteq> insert (q @ [k]) T" by auto
      moreover have "q @ k # rest \<in> insert (q @ [k]) T" using Nil by simp
      ultimately show ?thesis using run st by blast
    next
      case (Cons k2 rest')
      have rne: "rest \<noteq> []" using Cons by simp
      have k2: "((\<exists>kts2. tk = TObj kts2) \<and> Atoi k2 = None) \<or> ((\<exists>ts2. tk = TArr ts2) \<and> Atoi k2 \<noteq> None)"
      proof (cases tk)
        case (TLeaf y)
        with tkl Cons show ?thesis by simp
      next
        case (TObj kts2)
        from tkl[unfolded TObj Cons] obtain t2 where "(k2, t2) \<in> set kts2" by (rule sub_Obj_cases)
        with oktk TObj have "okKey k2" by auto
        then show ?thesis using TObj by (simp add: okKey_def)
      next
        case (TArr ts2)
        from tkl[unfolded TArr Cons] obtain i2 where "Atoi k2 = Some (int i2)" by (rule sub_Arr_cases)
        then show ?thesis using TArr by simp
      qed
      show ?thesis
      proof (cases "q @ [k] \<in> T")
        case True
        have mo: "map_of (mapAt h a) k = Some (pv (q @ [k]))" using m True by simp
        have run: "setByPathRecursive g h j (pv q) (k # rest) x (joinDot q) =
                   setByPathRecursive g h j (pv (q @ [k])) rest x (joinDot (q @ [k]))"
          unfolding a Cons using sbr_map_old[OF at mo] np by simp
        from IH[OF B dj True leaf' rne] obtain h' pv' T' where
          r: "setByPathRecursive g h j (pv (q @ [k])) rest x (joinDot (q @ [k])) = Return (h', j, None)"
            "built L t0 h' pv' T'" "pv' [] = pv []" "T \<subseteq> T'" "(q @ [k]) @ rest \<in> T'"
            "length h \<le> length h'" "\<forall>b < L. h' ! b = h ! b"
          by blast
        have "q @ k # rest \<in> T'" using r(5) by simp
        with run r show ?thesis by (simp only:) blast
      next
        case False
        have mo: "map_of (mapAt h a) k = None" using m False by simp
        obtain ext c where kc: "keyContainer h k2 = (h @ ext, c)"
          and child: "(ext = [] \<and> tk = TLeaf c) \<or>
                (q @ [k] \<notin> T \<and> (((\<exists>kts2. tk = TObj kts2) \<and> ext = [CMap []] \<and> c = VMap (length h)) \<or>
                                  ((\<exists>ts2. tk = TArr ts2) \<and> ext = [CArr []] \<and> c = VSlice (length h) 0)))"
        proof -
          from k2 show thesis
          proof (elim disjE conjE exE)
            fix kts2 assume h: "tk = TObj kts2" "Atoi k2 = None"
            show thesis
              by (rule that[of "[CMap []]" "VMap (length h)"])
                 (use h False in \<open>auto simp: keyContainer_def newMap_def\<close>)
          next
            fix ts2 assume h: "tk = TArr ts2" "Atoi k2 \<noteq> None"
            show thesis
              by (rule that[of "[CArr []]" "VSlice (length h) 0"])
                 (use h False in \<open>auto simp: keyContainer_def newSlice_def\<close>)
          qed
        qed
        let ?h1 = "mapStore (h @ ext) a k c"
        let ?pv1 = "pv(q @ [k] := c)"
        let ?T1 = "insert (q @ [k]) T"
        from obj_step[OF B ok q sq mk a child]
        have st: "built L t0 ?h1 ?pv1 ?T1" "map_of (mapAt ?h1 a) k = Some c"
          "length h \<le> length ?h1" "\<forall>b < L. ?h1 ! b = h ! b" by simp_all
        have run: "setByPathRecursive g h j (pv q) (k # rest) x (joinDot q) =
                   setByPathRecursive g ?h1 j c rest x (joinDot (q @ [k]))"
          unfolding a Cons using sbr_map_new[OF at mo kc st(2)] np by simp
        have dj1: "data j = ?pv1 []" using dj by simp
        have in1: "q @ [k] \<in> ?T1" by simp
        from IH[OF st(1) dj1 in1 leaf' rne] obtain h' pv' T' where
          r: "setByPathRecursive g ?h1 j (?pv1 (q @ [k])) rest x (joinDot (q @ [k])) = Return (h', j, None)"
            "built L t0 h' pv' T'" "pv' [] = ?pv1 []" "?T1 \<subseteq> T'" "(q @ [k]) @ rest \<in> T'"
            "length ?h1 \<le> length h'" "\<forall>b < L. h' ! b = ?h1 ! b"
          by blast
        have c1: "setByPathRecursive g h j (pv q) (k # rest) x (joinDot q) = Return (h', j, None)"
          using run r(1) by simp
        have c3: "pv' [] = pv []" using r(3) by simp
        have c4: "T \<subseteq> T'" using r(4) by auto
        have c5: "q @ k # rest \<in> T'" using r(5) by simp
        have c6: "length h \<le> length h'" using st(3) r(6) by simp
        have c7: "\<forall>b < L. h' ! b = h ! b" using st(4) r(7) by simp
        from c1 r(2) c3 c4 c5 c6 c7 show ?thesis by blast
      qed
    qed
  next
    case (TArr ts)
    note sq = t[unfolded TArr]
    from tl[unfolded TArr] obtain i where i: "i < length ts" "k = Itoa i" "Atoi k = Some (int i)"
      and til: "sub (ts ! i) rest = Some (TLeaf x)"
      by (rule sub_Arr_cases)
    from okt TArr i(1) have tslen: "length ts \<le> 10000" and nar: "\<not> isArrTree (ts ! i)"
      and okti: "okTree (ts ! i)" by auto
    have i10: "i < 10000" using i(1) tslen by simp
    from built_nodeOk[OF B q] obtain a n where a: "pv q = VSlice a n"
      unfolding nodeOk_Arr[OF sq] by auto
    obtain h1 a1 n1 where gr: "growTo g h a n i = (h1, a1, n1)"
      by (cases "growTo g h a n i") auto
    have qne: "q \<noteq> []" using sq root by auto
    then have hq: "hd q \<noteq> []" using hd by simp
    have cp: "joinDot q \<noteq> []" by (rule joinDot_nonempty[OF qne hq])
    have sp: "splitDot (joinDot q) = q"
      by (rule splitDot_joinDot[OF qne sub_dotFree[OF ok t]])
    let ?r = "q @ [Itoa i]"
    let ?new = "VSlice a1 n1"
    let ?pv1 = "\<lambda>c. pv(q := ?new, ?r := c)"
    have r0: "\<And>c. ?pv1 c [] = pv []" using qne by simp
    show ?thesis
    proof (cases rest)
      case Nil
      with til have ti: "ts ! i = TLeaf x" by simp
      let ?h2 = "arrStore (h1 @ []) a1 i x"
      let ?h3 = "walkRef ?h2 (pv []) q ?new"
      from arr_step[OF B ok root q sq i(1) a gr, of ?h2 "[]" x] ti
      have st: "built L t0 ?h3 (?pv1 x) (insert ?r T)" "length h \<le> length ?h3" "\<forall>b < L. ?h3 ! b = h ! b"
        by simp_all
      have run: "setByPathRecursive g h j (pv q) (k # rest) x (joinDot q) = Return (?h3, j, None)"
        unfolding a Nil using sbr_arr_last[OF i(3) i10 gr cp, of j x] sp dj by simp
      have "T \<subseteq> insert ?r T" by auto
      moreover have "q @ k # rest \<in> insert ?r T" using Nil i(2) by simp
      ultimately show ?thesis using run st r0[of x] by blast
    next
      case (Cons k2 rest')
      have rne: "rest \<noteq> []" using Cons by simp
      obtain kts2 where ti: "ts ! i = TObj kts2"
      proof (cases "ts ! i")
        case (TLeaf y)
        with til Cons show ?thesis by simp
      next
        case (TObj kts2)
        then show ?thesis by (rule that)
      next
        case (TArr ts2)
        with nar show ?thesis by simp
      qed
      from til[unfolded ti Cons] obtain t2 where "(k2, t2) \<in> set kts2" by (rule sub_Obj_cases)
      with okti ti have "okKey k2" by auto
      then have at2: "Atoi k2 = None" by (simp add: okKey_def)
      note slot = arr_slot[OF B ok q sq i(1) a gr ti]
      have g1: "isArr h1 a1"
      proof -
        from built_nodeOk[OF B q] a have "isArr h a" "n \<le> length (arrAt h a)"
          unfolding nodeOk_Arr[OF sq] by auto
        from growTo_spec[OF gr this] show ?thesis by simp
      qed
      obtain ext c h2 where h2: "h2 = arrStore (h1 @ ext) a1 i c"
        and child: "(ext = [] \<and> ts ! i = TLeaf c) \<or>
                (ext = [] \<and> ?r \<in> T \<and> c = pv ?r) \<or>
                (ext = [CMap []] \<and> ?r \<notin> T \<and> (\<exists>kts2. ts ! i = TObj kts2) \<and> c = VMap (length h1))"
        and run: "setByPathRecursive g h j (pv q) (k # rest) x (joinDot q) =
                  setByPathRecursive g (walkRef h2 (pv []) q ?new) j (arrAt h2 a1 ! i) rest x (joinDot (q @ [k]))"
      proof (cases "?r \<in> T")
        case True
        with slot have s: "arrAt h1 a1 ! i = pv ?r" "arrAt h1 a1 ! i \<noteq> VNil" by auto
        have e: "h1 = arrStore (h1 @ []) a1 i (pv ?r)"
          using arrStore_id[OF g1, of i] s(1) by simp
        have "setByPathRecursive g h j (pv q) (k # rest) x (joinDot q) =
              setByPathRecursive g (walkRef h1 (pv []) q ?new) j (arrAt h1 a1 ! i) rest x (joinDot (q @ [k]))"
          unfolding a Cons using sbr_arr_old[OF i(3) i10 gr cp s(2), of j k2 rest' x] sp dj np by simp
        with that[of h1 "[]" "pv ?r"] e True show ?thesis by simp
      next
        case False
        with slot have s: "arrAt h1 a1 ! i = VNil" by simp
        let ?h2 = "arrStore (h1 @ [CMap []]) a1 i (VMap (length h1))"
        have "setByPathRecursive g h j (pv q) (k # rest) x (joinDot q) =
              setByPathRecursive g (walkRef ?h2 (pv []) q ?new) j (arrAt ?h2 a1 ! i) rest x (joinDot (q @ [k]))"
          unfolding a Cons using sbr_arr_new[OF i(3) i10 gr cp s at2 refl, of j rest' x] sp dj np by simp
        with that[of ?h2 "[CMap []]" "VMap (length h1)"] False ti show ?thesis by simp
      qed
      let ?h3 = "walkRef h2 (pv []) q ?new"
      from arr_step[OF B ok root q sq i(1) a gr h2 child]
      have st: "built L t0 ?h3 (?pv1 c) (insert ?r T)" "arrAt h2 a1 ! i = c"
        "length h \<le> length ?h3" "\<forall>b < L. ?h3 ! b = h ! b" by simp_all
      have dj1: "data j = ?pv1 c []" using dj r0 by simp
      have in1: "q @ [k] \<in> insert ?r T" using i(2) by simp
      from IH[OF st(1) dj1 in1 leaf' rne] obtain h' pv' T' where
        r: "setByPathRecursive g ?h3 j (?pv1 c (q @ [k])) rest x (joinDot (q @ [k])) = Return (h', j, None)"
          "built L t0 h' pv' T'" "pv' [] = ?pv1 c []" "insert ?r T \<subseteq> T'" "(q @ [k]) @ rest \<in> T'"
          "length ?h3 \<le> length h'" "\<forall>b < L. h' ! b = ?h3 ! b"
        by blast
      have pc: "?pv1 c (q @ [k]) = c" using i(2) by simp
      have c1: "setByPathRecursive g h j (pv q) (k # rest) x (joinDot q) = Return (h', j, None)"
        using run r(1) st(2) pc by simp
      have c3: "pv' [] = pv []" using r(3) r0 by simp
      have c4: "T \<subseteq> T'" using r(4) by auto
      have c5: "q @ k # rest \<in> T'" using r(5) by simp
      have c6: "length h \<le> length h'" using st(3) r(6) by simp
      have c7: "\<forall>b < L. h' ! b = h ! b" using st(4) r(7) by simp
      from c1 r(2) c3 c4 c5 c6 c7 show ?thesis by blast
    qed
  qed
qed

lemma leaf_path:
  assumes ok: "okTree t0" and root: "t0 = TObj kts0" and rk: "rootKeysOk t0"
    and leaf: "sub t0 p = Some (TLeaf x)"
  shows "p \<noteq> [] \<and> hd p \<noteq> [] \<and> (\<forall>s \<in> set p. dotFree s)"
proof -
  have pne: "p \<noteq> []" using leaf root by auto
  then obtain k p' where p: "p = k # p'" by (cases p) auto
  from leaf[unfolded p root] obtain t' where "(k, t') \<in> set kts0" by (rule sub_Obj_cases)
  with rk root have "k \<noteq> []" by (auto simp: rootKeysOk_def)
  with p pne sub_dotFree[OF ok leaf] show ?thesis by simp
qed

lemma Set_built:
  assumes ok: "okTree t0" and root: "t0 = TObj kts0" and rk: "rootKeysOk t0"
    and B: "built L t0 h pv T" and dj: "data j = pv []" and ej: "err j = None"
    and leaf: "sub t0 p = Some (TLeaf x)"
  shows "\<exists>h' pv' T'. Set g h j (joinDot p) x = Return (h', j, \<lparr>data = data j, err = None\<rparr>) \<and>
            built L t0 h' pv' T' \<and> pv' [] = pv [] \<and> T \<subseteq> T' \<and> p \<in> T' \<and>
            length h \<le> length h' \<and> (\<forall>b < L. h' ! b = h ! b)"
proof -
  from leaf_path[OF ok root rk leaf] have pne: "p \<noteq> []" and hp: "hd p \<noteq> []"
    and df: "\<forall>s \<in> set p. dotFree s" by auto
  have jne: "joinDot p \<noteq> []" by (rule joinDot_nonempty[OF pne hp])
  have sp: "splitDot (joinDot p) = p" by (rule splitDot_joinDot[OF pne df])
  have r: "[] \<in> T" using B by (simp add: built_def)
  have s0: "sub t0 [] = Some (TObj kts0)" using root by simp
  from built_nodeOk[OF B r] obtain a where a: "pv [] = VMap a"
    unfolding nodeOk_Obj[OF s0] by auto
  have jj: "j\<lparr>data := VMap a\<rparr> = j" using dj a by (cases j) simp
  have sb: "setByPath g h j (joinDot p) x = setByPathRecursive g h j (pv []) p x (joinDot [])"
    using jne sp dj a by (simp add: setByPath_def rootContainer_def jj)
  have leaf': "sub t0 ([] @ p) = Some (TLeaf x)" using leaf by simp
  from setByPathRecursive_built[OF ok root rk B dj r leaf' pne, of g]
  obtain h' pv' T' where
    res: "setByPathRecursive g h j (pv []) p x (joinDot []) = Return (h', j, None)"
      "built L t0 h' pv' T'" "pv' [] = pv []" "T \<subseteq> T'" "[] @ p \<in> T'"
      "length h \<le> length h'" "\<forall>b < L. h' ! b = h ! b"
    by blast
  have "Set g h j (joinDot p) x = Return (h', j, \<lparr>data = data j, err = None\<rparr>)"
    using ej sb res(1) by (simp add: Set_def)
  moreover have "p \<in> T'" using res(5) by simp
  ultimately show ?thesis using res by blast
qed

lemma setAll_built:
  assumes ok: "okTree t0" and root: "t0 = TObj kts0" and rk: "rootKeysOk t0"
  shows "built L t0 h pv T \<Longrightarrow> data j = pv [] \<Longrightarrow> err j = None \<Longrightarrow>
         (\<forall>e \<in> set es. \<exists>p. fst e = joinDot p \<and> sub t0 p = Some (TLeaf (snd e))) \<Longrightarrow>
         \<exists>h' pv' T'. setAll g h j es = Return (h', j) \<and> built L t0 h' pv' T' \<and> pv' [] = pv [] \<and>
            T \<subseteq> T' \<and>
            (\<forall>e \<in> set es. \<exists>p. fst e = joinDot p \<and> sub t0 p = Some (TLeaf (snd e)) \<and> p \<in> T') \<and>
            length h \<le> length h' \<and> (\<forall>b < L. h' ! b = h ! b)"
proof (induction es arbitrary: h pv T)
  case Nil
  have "setAll g h j [] = Return (h, j)" by simp
  with Nil.prems(1) show ?case by auto
next
  case (Cons e es)
  note B = Cons.prems(1) and dj = Cons.prems(2) and ej = Cons.prems(3)
  obtain path x where e: "e = (path, x)" by (cases e)
  from Cons.prems(4) e obtain p where p: "path = joinDot p" "sub t0 p = Some (TLeaf x)" by auto
  from Set_built[OF ok root rk B dj ej p(2), of g] obtain h1 pv1 T1 where
    s1: "Set g h j (joinDot p) x = Return (h1, j, \<lparr>data = data j, err = None\<rparr>)"
      "built L t0 h1 pv1 T1" "pv1 [] = pv []" "T \<subseteq> T1" "p \<in> T1"
      "length h \<le> length h1" "\<forall>b < L. h1 ! b = h ! b"
    by blast
  have run: "setAll g h j (e # es) = setAll g h1 j es"
    using s1(1) e p(1) by simp
  have dj1: "data j = pv1 []" using dj s1(3) by simp
  have rest: "\<forall>e \<in> set es. \<exists>p. fst e = joinDot p \<and> sub t0 p = Some (TLeaf (snd e))"
    using Cons.prems(4) by simp
  from Cons.IH[OF s1(2) dj1 ej rest] obtain h' pv' T' where
    r: "setAll g h1 j es = Return (h', j)" "built L t0 h' pv' T'" "pv' [] = pv1 []" "T1 \<subseteq> T'"
      "\<forall>e \<in> set es. \<exists>p. fst e = joinDot p \<and> sub t0 p = Some (TLeaf (snd e)) \<and> p \<in> T'"
      "length h1 \<le> length h'" "\<forall>b < L. h' ! b = h1 ! b"
    by blast
  have c1: "setAll g h j (e # es) = Return (h', j)" using run r(1) by simp
  have c3: "pv' [] = pv []" using r(3) s1(3) by simp
  have c4: "T \<subseteq> T'" using s1(4) r(4) by auto
  have "\<exists>p. fst e = joinDot p \<and> sub t0 p = Some (TLeaf (snd e)) \<and> p \<in> T'"
    using e p s1(5) r(4) by auto
  with r(5) have c5: "\<forall>e \<in> set (e # es). \<exists>p. fst e = joinDot p \<and> sub t0 p = Some (TLeaf (snd e)) \<and> p \<in> T'"
    by simp
  have c6: "length h \<le> length h'" using s1(6) r(6) by simp
  have c7: "\<forall>b < L. h' ! b = h ! b" using s1(7) r(7) by simp
  from c1 r(2) c3 c4 c5 c6 c7 show ?case by blast
qed

text \<open>When every position of the tree is built, the root represents the tree.\<close>

lemma all_positions:
  assumes B: "built L t0 h pv T" and ok: "okTree t0"
    and leaves: "\<And>p x. sub t0 p = Some (TLeaf x) \<Longrightarrow> p \<in> T"
    and s: "sub t0 p = Some t"
  shows "p \<in> T"
proof -
  have "okTree t" using okTree_sub[OF ok s] .
  from sub_leaf_exists[OF this] obtain p' x where "sub t p' = Some (TLeaf x)" by blast
  with s have "sub t0 (p @ p') = Some (TLeaf x)" by (simp add: sub_append)
  from leaves[OF this] built_prefix[OF B] show ?thesis by blast
qed

lemma built_rep:
  assumes B: "built L t0 h pv T" and ok: "okTree t0"
    and all: "\<And>p t. sub t0 p = Some t \<Longrightarrow> p \<in> T"
  shows "sub t0 p = Some t \<Longrightarrow> repFrom L h (pv p) t"
proof (induction t arbitrary: p rule: tree_induct)
  case (Leaf x)
  from built_nodeOk[OF B all[OF Leaf.prems]] have "pv p = x"
    by (simp add: nodeOk_Leaf[OF Leaf.prems])
  with okTree_leaf_scalar[OF ok Leaf.prems] show ?case by simp
next
  case (Obj kts)
  note sp = Obj.prems
  from built_nodeOk[OF B all[OF sp]] obtain a where a: "pv p = VMap a" "L \<le> a" "isMap h a"
      "distinct (map fst (mapAt h a))"
    and m: "\<And>k. map_of (mapAt h a) k = (if p @ [k] \<in> T then Some (pv (p @ [k])) else None)"
    unfolding nodeOk_Obj[OF sp] by auto
  have dk: "distinct (map fst kts)" using okTree_sub[OF ok sp] by simp
  have child: "\<And>k t. (k, t) \<in> set kts \<Longrightarrow> sub t0 (p @ [k]) = Some t"
    using sp dk by (simp add: sub_append)
  have mem: "\<And>k. p @ [k] \<in> T \<longleftrightarrow> k \<in> fst ` set kts"
  proof
    fix k assume "p @ [k] \<in> T"
    from nodeOk_sub[OF built_nodeOk[OF B this]] obtain t where "sub t0 (p @ [k]) = Some t" by auto
    then have "sub (TObj kts) [k] = Some t" using sp by (simp add: sub_append)
    then obtain t' where "(k, t') \<in> set kts" by (rule sub_Obj_cases)
    then show "k \<in> fst ` set kts" by force
  next
    fix k assume "k \<in> fst ` set kts"
    then obtain t where "(k, t) \<in> set kts" by auto
    from all[OF child[OF this]] show "p @ [k] \<in> T" .
  qed
  have keys: "set (map fst (mapAt h a)) = set (map fst kts)"
  proof -
    have "\<And>k. k \<in> fst ` set (mapAt h a) \<longleftrightarrow> k \<in> fst ` set kts"
      using m mem map_of_eq_None_iff[of "mapAt h a"] by (metis option.distinct(1))
    then show ?thesis by auto
  qed
  have ch: "\<And>k t. (k, t) \<in> set kts \<Longrightarrow> \<exists>c. map_of (mapAt h a) k = Some c \<and> repFrom L h c t"
  proof -
    fix k t assume kt: "(k, t) \<in> set kts"
    have "p @ [k] \<in> T" using all[OF child[OF kt]] .
    then have "map_of (mapAt h a) k = Some (pv (p @ [k]))" using m by simp
    moreover have "repFrom L h (pv (p @ [k])) t" by (rule Obj.IH[OF kt child[OF kt]])
    ultimately show "\<exists>c. map_of (mapAt h a) k = Some c \<and> repFrom L h c t" by blast
  qed
  show ?case unfolding repFrom_Obj_iff using a dk keys ch by blast
next
  case (Arr ts)
  note sp = Arr.prems
  from built_nodeOk[OF B all[OF sp]] obtain a n where a: "pv p = VSlice a n" "L \<le> a" "isArr h a"
      "n \<le> length (arrAt h a)" "n \<le> length ts"
    and tch: "\<And>i. i < length ts \<Longrightarrow> p @ [Itoa i] \<in> T \<Longrightarrow> i < n"
    and e: "\<And>i. i < n \<Longrightarrow> arrAt h a ! i = (if p @ [Itoa i] \<in> T then pv (p @ [Itoa i]) else VNil)"
    unfolding nodeOk_Arr[OF sp] by auto
  have tslen: "length ts \<le> 10000" using okTree_sub[OF ok sp] by simp
  have child: "\<And>i. i < length ts \<Longrightarrow> sub t0 (p @ [Itoa i]) = Some (ts ! i)"
    using sp sub_Arr_child[OF _ tslen, of _ "[]"] by (simp add: sub_append)
  have lt: "\<And>i. i < length ts \<Longrightarrow> i < n" using tch all[OF child] by blast
  have n: "n = length ts"
  proof (rule ccontr)
    assume "n \<noteq> length ts"
    with a(5) have "n < length ts" by simp
    from lt[OF this] show False by simp
  qed
  have "list_all2 (repFrom L h) (take n (arrAt h a)) ts"
  proof (rule list_all2_all_nthI)
    show "length (take n (arrAt h a)) = length ts" using a(4) n by simp
  next
    fix i assume "i < length (take n (arrAt h a))"
    then have i: "i < n" "i < length ts" using n by simp_all
    have "take n (arrAt h a) ! i = pv (p @ [Itoa i])"
      using e[OF i(1)] all[OF child[OF i(2)]] i(1) by simp
    moreover have "repFrom L h (pv (p @ [Itoa i])) (ts ! i)"
      by (rule Arr.IH[OF _ child[OF i(2)]]) (use i(2) in simp)
    ultimately show "repFrom L h (take n (arrAt h a) ! i) (ts ! i)" by simp
  qed
  then show ?case unfolding repFrom_Arr_iff using a by blast
qed

lemma built_initial:
  "built (length h) (TObj kts) (h @ [CMap []]) (\<lambda>p. VMap (length h)) {[]}"
proof (rule built_intro)
  show "[] \<in> {[]}" by simp
  show "\<And>p k. p @ [k] \<in> {[]} \<Longrightarrow> p \<in> {[]}" by simp
  show "\<And>p. p \<in> {[]} \<Longrightarrow> nodeOk (length h) (TObj kts) (h @ [CMap []]) (\<lambda>p. VMap (length h)) {[]} p"
  proof -
    fix p :: "string list" assume "p \<in> {[]}"
    then have p: "p = []" by simp
    have s: "sub (TObj kts) [] = Some (TObj kts)" by simp
    have "isMap (h @ [CMap []]) (length h) \<and> mapAt (h @ [CMap []]) (length h) = []"
      by (rule isMap_cell) simp_all
    then show "nodeOk (length h) (TObj kts) (h @ [CMap []]) (\<lambda>p. VMap (length h)) {[]} p"
      unfolding p nodeOk_Obj[OF s] by simp
  qed
  show "\<And>p q b. p \<in> {[]} \<Longrightarrow> q \<in> {[]} \<Longrightarrow> addrOf (VMap (length h)) = Some b \<Longrightarrow>
          addrOf (VMap (length h)) = Some b \<Longrightarrow> p = q" by simp
qed

subsubsection \<open>The round trip\<close>

lemma roundtrip_empty:
  assumes rp: "rep h (data j) (TObj [])" and f: "depth (TObj []) \<le> f"
  shows "Flatten f h j = Some [] \<and>
         Unflatten g h [] = Return (h @ [CMap []], \<lparr>data = VMap (length h), err = None\<rparr>) \<and>
         rep (h @ [CMap []]) (VMap (length h)) (TObj [])"
proof -
  from rp obtain a where a: "data j = VMap a" "set (map fst (mapAt h a)) = {}"
    unfolding rep_def repFrom_Obj_iff by auto
  then have m: "mapAt h a = []" by simp
  from f obtain f' where f': "f = Suc f'" by (cases f) auto
  have "Flatten f h j = Some []" by (simp add: Flatten_def f' a(1) m)
  moreover have "Unflatten g h [] = Return (h @ [CMap []], \<lparr>data = VMap (length h), err = None\<rparr>)"
    by (simp add: Unflatten_def Object_def newMap_def)
  moreover have "isMap (h @ [CMap []]) (length h) \<and> mapAt (h @ [CMap []]) (length h) = []"
    by (rule isMap_cell) simp_all
  then have "rep (h @ [CMap []]) (VMap (length h)) (TObj [])"
    by (simp add: rep_def)
  ultimately show ?thesis by simp
qed

lemma roundtrip_main:
  assumes rp: "rep h (data j) (TObj kts)" and ok: "okTree (TObj kts)" and rk: "rootKeysOk (TObj kts)"
    and f: "depth (TObj kts) \<le> f"
  shows "\<exists>fl. Flatten f h j = Some fl \<and>
           (\<forall>es. set es = set fl \<longrightarrow>
              (\<exists>h' r. Unflatten g h es = Return (h', r) \<and> err r = None \<and>
                      rep h' (data r) (TObj kts) \<and> take (length h) h' = h))"
proof -
  let ?t = "TObj kts"
  have "\<exists>ents. flattenRecursive f h (data j) (joinDot []) [] = Some ([] @ ents) \<and>
               set ents = leafEntries [] ?t \<and> distinct (map fst ents)"
    by (rule flattenRecursive_spec[OF rp ok f]) (use rk in simp_all)
  then obtain ents where F: "Flatten f h j = Some ents" and se: "set ents = leafEntries [] ?t"
    by (auto simp: Flatten_def)
  have "\<forall>es. set es = set ents \<longrightarrow>
          (\<exists>h' r. Unflatten g h es = Return (h', r) \<and> err r = None \<and>
                  rep h' (data r) ?t \<and> take (length h) h' = h)"
  proof (intro allI impI)
    fix es :: "(string \<times> val) list" assume es: "set es = set ents"
    have ent: "\<forall>e \<in> set es. \<exists>p. fst e = joinDot p \<and> sub ?t p = Some (TLeaf (snd e))"
    proof
      fix e assume "e \<in> set es"
      then have "e \<in> leafEntries [] ?t" using es se by simp
      then obtain p x where "e = (joinDot ([] @ p), x)" "sub ?t p = Some (TLeaf x)"
        unfolding leafEntries_def by blast
      then have "fst e = joinDot p \<and> sub ?t p = Some (TLeaf (snd e))" by simp
      then show "\<exists>p. fst e = joinDot p \<and> sub ?t p = Some (TLeaf (snd e))" ..
    qed
    let ?h0 = "h @ [CMap []]"
    let ?j0 = "\<lparr>data = VMap (length h), err = None\<rparr>"
    have dj: "data ?j0 = (\<lambda>p :: string list. VMap (length h)) []" by simp
    have ej: "err ?j0 = None" by simp
    from setAll_built[OF ok refl rk built_initial dj ej ent, of g]
    obtain h' pv' T' where
      res: "setAll g ?h0 ?j0 es = Return (h', ?j0)" "built (length h) ?t h' pv' T'"
        "pv' [] = VMap (length h)"
        "\<forall>e \<in> set es. \<exists>p. fst e = joinDot p \<and> sub ?t p = Some (TLeaf (snd e)) \<and> p \<in> T'"
        "length ?h0 \<le> length h'" "\<forall>b < length h. h' ! b = ?h0 ! b"
      by blast
    have U: "Unflatten g h es = Return (h', ?j0)"
      using res(1) by (simp add: Unflatten_def Object_def newMap_def)
    have leaves: "\<And>p x. sub ?t p = Some (TLeaf x) \<Longrightarrow> p \<in> T'"
    proof -
      fix p x assume l: "sub ?t p = Some (TLeaf x)"
      then have "(joinDot ([] @ p), x) \<in> leafEntries [] ?t" unfolding leafEntries_def by blast
      then have mem: "(joinDot p, x) \<in> set es" using es se by simp
      have "\<exists>p'. fst (joinDot p, x) = joinDot p' \<and> sub ?t p' = Some (TLeaf (snd (joinDot p, x))) \<and> p' \<in> T'"
        using res(4) mem by (rule bspec)
      then obtain p' where p': "joinDot p = joinDot p'" "sub ?t p' = Some (TLeaf x)" "p' \<in> T'"
        by auto
      from leaf_path[OF ok refl rk l] have a: "p \<noteq> []" "\<forall>s \<in> set p. dotFree s" by simp_all
      from leaf_path[OF ok refl rk p'(2)] have b: "p' \<noteq> []" "\<forall>s \<in> set p'. dotFree s" by simp_all
      have "p = p'" by (rule joinDot_inj[OF a(1) b(1) a(2) b(2) p'(1)])
      with p'(3) show "p \<in> T'" by simp
    qed
    have all: "\<And>p t. sub ?t p = Some t \<Longrightarrow> p \<in> T'"
      by (rule all_positions[OF res(2) ok leaves])
    have s0: "sub ?t [] = Some ?t" by simp
    have "repFrom (length h) h' (pv' []) ?t" by (rule built_rep[OF res(2) ok all s0])
    then have "repFrom 0 h' (pv' []) ?t" by (rule repFrom_mono) simp
    then have R: "rep h' (data ?j0) ?t" unfolding rep_def res(3) by (simp only: JSON.select_convs)
    have tk: "take (length h) h' = h"
    proof (rule nth_equalityI)
      show "length (take (length h) h') = length h" using res(5) by simp
    next
      fix i assume "i < length (take (length h) h')"
      then have i: "i < length h" by simp
      then have "h' ! i = ?h0 ! i" using res(6) by simp
      then show "take (length h) h' ! i = h ! i" using i by (simp add: nth_append)
    qed
    from U R tk show "\<exists>h' r. Unflatten g h es = Return (h', r) \<and> err r = None \<and>
                  rep h' (data r) ?t \<and> take (length h) h' = h"
      by (intro exI[of _ h'] exI[of _ ?j0]) simp
  qed
  with F show ?thesis by blast
qed

text \<open>
  C4 says that \<^verbatim>\<open>Unflatten(Flatten(v))\<close> is structurally equal to \<open>v\<close> for every value
  built from nested objects and arrays whose keys do not look like integers. Four such
  values for which it is not: \<^verbatim>\<open>{"a": {}}\<close> (Flatten records leaves only, the empty object
  is lost), the array \<^verbatim>\<open>[1]\<close> (Unflatten starts from an object and ignores the error of
  \<^verbatim>\<open>Set("0", 1)\<close> on it), \<^verbatim>\<open>{"a.b": 1}\<close> (the dot of the key is read as a separator) and
  \<^verbatim>\<open>{"": 1}\<close> (the empty path replaces the root).
\<close>

theorem Unflatten_Flatten_counterexample:
  "rep [CMap [(''a'', VMap 1)], CMap []] (VMap 0) (TObj [(''a'', TObj [])]) \<and>
   Flatten 2 [CMap [(''a'', VMap 1)], CMap []] \<lparr>data = VMap 0, err = None\<rparr> = Some [] \<and>
   Unflatten max [CMap [(''a'', VMap 1)], CMap []] [] =
     Return ([CMap [(''a'', VMap 1)], CMap [], CMap []], \<lparr>data = VMap 2, err = None\<rparr>) \<and>
   \<not> rep [CMap [(''a'', VMap 1)], CMap [], CMap []] (VMap 2) (TObj [(''a'', TObj [])]) \<and>
   rep [CArr [VInt 1]] (VSlice 0 1) (TArr [TLeaf (VInt 1)]) \<and>
   Flatten 2 [CArr [VInt 1]] \<lparr>data = VSlice 0 1, err = None\<rparr> = Some [(''0'', VInt 1)] \<and>
   Unflatten max [CArr [VInt 1]] [(''0'', VInt 1)] =
     Return ([CArr [VInt 1], CMap []], \<lparr>data = VMap 1, err = None\<rparr>) \<and>
   \<not> rep [CArr [VInt 1], CMap []] (VMap 1) (TArr [TLeaf (VInt 1)]) \<and>
   rep [CMap [(''a.b'', VInt 1)]] (VMap 0) (TObj [(''a.b'', TLeaf (VInt 1))]) \<and>
   Flatten 2 [CMap [(''a.b'', VInt 1)]] \<lparr>data = VMap 0, err = None\<rparr> = Some [(''a.b'', VInt 1)] \<and>
   Unflatten max [CMap [(''a.b'', VInt 1)]] [(''a.b'', VInt 1)] =
     Return ([CMap [(''a.b'', VInt 1)], CMap [(''a'', VMap 2)], CMap [(''b'', VInt 1)]],
             \<lparr>data = VMap 1, err = None\<rparr>) \<and>
   \<not> rep [CMap [(''a.b'', VInt 1)], CMap [(''a'', VMap 2)], CMap [(''b'', VInt 1)]] (VMap 1)
         (TObj [(''a.b'', TLeaf (VInt 1))]) \<and>
   rep [CMap [('''', VInt 1)]] (VMap 0) (TObj [('''', TLeaf (VInt 1))]) \<and>
   Flatten 2 [CMap [('''', VInt 1)]] \<lparr>data = VMap 0, err = None\<rparr> = Some [('''', VInt 1)] \<and>
   Unflatten max [CMap [('''', VInt 1)]] [('''', VInt 1)] =
     Return ([CMap [('''', VInt 1)], CMap []], \<lparr>data = VInt 1, err = None\<rparr>) \<and>
   \<not> rep [CMap [('''', VInt 1)], CMap []] (VInt 1) (TObj [('''', TLeaf (VInt 1))])"
  by code_simp

text \<open>
  C4, amended. Let \<open>v\<close> be an object whose keys, at every level, contain no dot and are
  not read as an integer by \<^verbatim>\<open>strconv.Atoi\<close>, whose keys at the root are not empty, in which
  every object and array below the root is non-empty, every array has at most 10000
  elements and no array is directly an element of an array. Then \<^verbatim>\<open>Flatten(v)\<close> returns
  (with fuel from the depth of \<open>v\<close> on), and \<^verbatim>\<open>Unflatten\<close> of the flat mapping, whatever
  the order in which it ranges over the entries and whatever the growth policy of
  \<^verbatim>\<open>append\<close>, returns a handle without error whose payload has the structure of \<open>v\<close>; the
  cells of the store that existed before are left as they were.
\<close>

theorem Unflatten_Flatten_roundtrip:
  assumes "rep h (data j) (TObj kts)" and "kts = [] \<or> okTree (TObj kts)"
    and "rootKeysOk (TObj kts)" and "depth (TObj kts) \<le> f"
  shows "\<exists>fl. Flatten f h j = Some fl \<and>
           (\<forall>es. set es = set fl \<longrightarrow>
              (\<exists>h' r. Unflatten g h es = Return (h', r) \<and> err r = None \<and>
                      rep h' (data r) (TObj kts) \<and> take (length h) h' = h))"
proof (cases "kts = []")
  case True
  from roundtrip_empty[OF assms(1)[unfolded True] assms(4)[unfolded True], of g]
  have e: "Flatten f h j = Some []"
    "Unflatten g h [] = Return (h @ [CMap []], \<lparr>data = VMap (length h), err = None\<rparr>)"
    "rep (h @ [CMap []]) (VMap (length h)) (TObj [])" by simp_all
  have "\<forall>es. set es = set ([] :: (string \<times> val) list) \<longrightarrow>
          (\<exists>h' r. Unflatten g h es = Return (h', r) \<and> err r = None \<and>
                  rep h' (data r) (TObj []) \<and> take (length h) h' = h)"
  proof (intro allI impI)
    fix es :: "(string \<times> val) list" assume "set es = set []"
    then have "es = []" by simp
    with e(2,3) show "\<exists>h' r. Unflatten g h es = Return (h', r) \<and> err r = None \<and>
                  rep h' (data r) (TObj []) \<and> take (length h) h' = h"
      by simp
  qed
  with e(1) show ?thesis unfolding True by blast
next
  case False
  with assms(2) have "okTree (TObj kts)" by simp
  from roundtrip_main[OF assms(1) this assms(3,4)] show ?thesis .
qed

theorem Unflatten_Flatten_roundtrip_witness:
  "Flatten 4 [CMap [(''a'', VSlice 1 2)], CArr [VInt 1, VMap 2], CMap [(''b'', VInt 2)]]
     \<lparr>data = VMap 0, err = None\<rparr> = Some [(''a.0'', VInt 1), (''a.1.b'', VInt 2)] \<and>
   (\<exists>h' r. Unflatten max [CMap [(''a'', VSlice 1 2)], CArr [VInt 1, VMap 2], CMap [(''b'', VInt 2)]]
              [(''a.1.b'', VInt 2), (''a.0'', VInt 1)] = Return (h', r) \<and> err r = None \<and>
            rep h' (data r) (TObj [(''a'', TArr [TLeaf (VInt 1), TObj [(''b'', TLeaf (VInt 2))]])]) \<and>
            take 3 h' = [CMap [(''a'', VSlice 1 2)], CArr [VInt 1, VMap 2], CMap [(''b'', VInt 2)]])"
proof -
  let ?H = "[CMap [(''a'', VSlice 1 2)], CArr [VInt 1, VMap 2], CMap [(''b'', VInt 2)]]"
  let ?J = "\<lparr>data = VMap 0, err = None\<rparr>"
  let ?kts = "[(''a'', TArr [TLeaf (VInt 1), TObj [(''b'', TLeaf (VInt 2))]])]"
  have a: "Atoi ''a'' = None" "Atoi ''b'' = None" by (simp_all add: Atoi_def digitVal_def)
  have h1: "rep ?H (data ?J) (TObj ?kts)"
    by (simp add: rep_def isMap_def isArr_def mapAt_def arrAt_def scalar_def)
  have h2: "?kts = [] \<or> okTree (TObj ?kts)"
    by (simp add: okKey_def dotFree_def a scalar_def)
  have h3: "rootKeysOk (TObj ?kts)" by (simp add: rootKeysOk_def)
  have h4: "depth (TObj ?kts) \<le> 4" by simp
  have i0: "Itoa 0 = ''0''" by code_simp
  have i1: "Itoa (Suc 0) = ''1''" by code_simp
  have F: "Flatten 4 ?H ?J = Some [(''a.0'', VInt 1), (''a.1.b'', VInt 2)]"
    by (simp add: Flatten_def eval_nat_numeral joinKey_def mapAt_def arrAt_def i0 i1)
  from Unflatten_Flatten_roundtrip[OF h1 h2 h3 h4, of max] F
  have "\<forall>es. set es = set [(''a.0'', VInt 1), (''a.1.b'', VInt 2)] \<longrightarrow>
          (\<exists>h' r. Unflatten max ?H es = Return (h', r) \<and> err r = None \<and>
                  rep h' (data r) (TObj ?kts) \<and> take (length ?H) h' = ?H)"
    by simp
  then have "\<exists>h' r. Unflatten max ?H [(''a.1.b'', VInt 2), (''a.0'', VInt 1)] = Return (h', r) \<and>
                err r = None \<and> rep h' (data r) (TObj ?kts) \<and> take (length ?H) h' = ?H"
    by (rule allE[of _ "[(''a.1.b'', VInt 2), (''a.0'', VInt 1)]"]) auto
  with F show ?thesis by (simp add: numeral_3_eq_3)
qed

text \<open>
  The amended statement leaves out an array that is directly an element of an array. For
  \<^verbatim>\<open>{"a": [[1, 2]]}\<close> the result depends on the order in which \<^verbatim>\<open>Unflatten\<close> ranges over
  the flat mapping: when \<^verbatim>\<open>a.0.0\<close> comes first the inner array is created with one slot,
  \<^verbatim>\<open>a.0.1\<close> grows it into a new slice, and \<^verbatim>\<open>updateDataReference\<close> does not store the new
  slice into the outer array (the lost update of C1); in the other order the inner array
  is created with two slots and the value is reproduced. Shown here for the growth policy
  that allocates exactly the needed length.
\<close>

lemma Unflatten_nested_array_order:
  "rep [CMap [(''a'', VSlice 1 1)], CArr [VSlice 2 2], CArr [VInt 1, VInt 2]] (VMap 0)
     (TObj [(''a'', TArr [TArr [TLeaf (VInt 1), TLeaf (VInt 2)]])]) \<and>
   Flatten 4 [CMap [(''a'', VSlice 1 1)], CArr [VSlice 2 2], CArr [VInt 1, VInt 2]]
     \<lparr>data = VMap 0, err = None\<rparr> = Some [(''a.0.0'', VInt 1), (''a.0.1'', VInt 2)] \<and>
   (case Unflatten max [CMap [(''a'', VSlice 1 1)], CArr [VSlice 2 2], CArr [VInt 1, VInt 2]]
           [(''a.0.0'', VInt 1), (''a.0.1'', VInt 2)] of
      Return (h', r) \<Rightarrow>
        err r = None \<and>
        \<not> rep h' (data r) (TObj [(''a'', TArr [TArr [TLeaf (VInt 1), TLeaf (VInt 2)]])]) \<and>
        rep h' (data r) (TObj [(''a'', TArr [TArr [TLeaf (VInt 1)]])])
    | Panic \<Rightarrow> False) \<and>
   (case Unflatten max [CMap [(''a'', VSlice 1 1)], CArr [VSlice 2 2], CArr [VInt 1, VInt 2]]
           [(''a.0.1'', VInt 2), (''a.0.0'', VInt 1)] of
      Return (h', r) \<Rightarrow>
        err r = None \<and>
        rep h' (data r) (TObj [(''a'', TArr [TArr [TLeaf (VInt 1), TLeaf (VInt 2)]])])
    | Panic \<Rightarrow> False)"
  by code_simp

end
